theory Spec2Isabelle
  imports Main
begin

section \<open>The proxy layer (reactive.ts)\<close>

subsection \<open>Values, objects and the heap\<close>

text \<open>
  JavaScript values: the primitives, and references to heap objects. Functions are heap
  objects whose \<open>typeof\<close> is \<open>function\<close> (field \<open>callable\<close>). Numbers are kept as
  integers plus \<open>NaN\<close>: only their truthiness matters to this file.
\<close>

type_synonym addr = nat

datatype jsval =
    JUndefined
  | JNull
  | JBool bool
  | JNum int
  | JNaN
  | JStr string
  | JSym nat
  | JBigInt int
  | JRef addr

fun truthy :: "jsval \<Rightarrow> bool" where
  "truthy JUndefined = False"
| "truthy JNull = False"
| "truthy (JBool b) = b"
| "truthy (JNum n) = (n \<noteq> 0)"
| "truthy JNaN = False"
| "truthy (JStr s) = (s \<noteq> [])"
| "truthy (JSym i) = True"
| "truthy (JBigInt n) = (n \<noteq> 0)"
| "truthy (JRef a) = True"

fun is_primitive :: "jsval \<Rightarrow> bool" where
  "is_primitive (JRef a) = False"
| "is_primitive v = True"

datatype error = TypeError

text \<open>The eight handler tables imported from baseHandlers and collectionHandlers.\<close>

datatype handlers =
    mutableHandlers
  | readonlyHandlers
  | shallowReactiveHandlers
  | shallowReadonlyHandlers
  | mutableCollectionHandlers
  | readonlyCollectionHandlers
  | shallowCollectionHandlers
  | shallowReadonlyCollectionHandlers

fun handlers_readonly :: "handlers \<Rightarrow> bool" where
  "handlers_readonly readonlyHandlers = True"
| "handlers_readonly shallowReadonlyHandlers = True"
| "handlers_readonly readonlyCollectionHandlers = True"
| "handlers_readonly shallowReadonlyCollectionHandlers = True"
| "handlers_readonly h = False"

fun handlers_shallow :: "handlers \<Rightarrow> bool" where
  "handlers_shallow shallowReactiveHandlers = True"
| "handlers_shallow shallowReadonlyHandlers = True"
| "handlers_shallow shallowCollectionHandlers = True"
| "handlers_shallow shallowReadonlyCollectionHandlers = True"
| "handlers_shallow h = False"

text \<open>
  A heap object is an ordinary object (its \<open>toRawType\<close> tag, whether it is callable,
  whether it is extensible, and its data properties) or a \<open>Proxy\<close> over a target with
  one of the handler tables.
\<close>

datatype obj =
    Plain string bool bool "(string \<times> jsval) list"
  | Proxy addr handlers

fun obj_raw_type :: "obj \<Rightarrow> string" where
  "obj_raw_type (Plain rt c e ps) = rt"
| "obj_raw_type (Proxy t h) = []"

fun obj_callable :: "obj \<Rightarrow> bool" where
  "obj_callable (Plain rt c e ps) = c"
| "obj_callable (Proxy t h) = False"

fun obj_extensible :: "obj \<Rightarrow> bool" where
  "obj_extensible (Plain rt c e ps) = e"
| "obj_extensible (Proxy t h) = False"

fun obj_props :: "obj \<Rightarrow> (string \<times> jsval) list" where
  "obj_props (Plain rt c e ps) = ps"
| "obj_props (Proxy t h) = []"

definition prop_lookup :: "(string \<times> jsval) list \<Rightarrow> string \<Rightarrow> jsval" where
  "prop_lookup ps k = (case map_of ps k of None \<Rightarrow> JUndefined | Some v \<Rightarrow> v)"

text \<open>
  The four module-level WeakMaps are keyed by object identity and only ever hold
  proxies, so each is an association list from target address to proxy address.
  \<open>warnings\<close> records the arguments of \<open>console.warn\<close>; \<open>nxt\<close> is the next
  unused address, \<open>new Proxy\<close> allocates there.
\<close>

record rstate =
  heap :: "addr \<Rightarrow> obj"
  nxt :: addr
  reactiveMap :: "(addr \<times> addr) list"
  shallowReactiveMap :: "(addr \<times> addr) list"
  readonlyMap :: "(addr \<times> addr) list"
  shallowReadonlyMap :: "(addr \<times> addr) list"
  warnings :: "jsval list"

datatype proxy_map = ReactiveMap | ShallowReactiveMap | ReadonlyMap | ShallowReadonlyMap

fun map_of_state :: "proxy_map \<Rightarrow> rstate \<Rightarrow> (addr \<times> addr) list" where
  "map_of_state ReactiveMap s = reactiveMap s"
| "map_of_state ShallowReactiveMap s = shallowReactiveMap s"
| "map_of_state ReadonlyMap s = readonlyMap s"
| "map_of_state ShallowReadonlyMap s = shallowReadonlyMap s"

fun map_set :: "proxy_map \<Rightarrow> addr \<Rightarrow> addr \<Rightarrow> rstate \<Rightarrow> rstate" where
  "map_set ReactiveMap a p s = s\<lparr>reactiveMap := (a, p) # reactiveMap s\<rparr>"
| "map_set ShallowReactiveMap a p s = s\<lparr>shallowReactiveMap := (a, p) # shallowReactiveMap s\<rparr>"
| "map_set ReadonlyMap a p s = s\<lparr>readonlyMap := (a, p) # readonlyMap s\<rparr>"
| "map_set ShallowReadonlyMap a p s = s\<lparr>shallowReadonlyMap := (a, p) # shallowReadonlyMap s\<rparr>"

definition map_get :: "proxy_map \<Rightarrow> rstate \<Rightarrow> jsval \<Rightarrow> addr option" where
  "map_get m s v = (case v of JRef a \<Rightarrow> map_of (map_of_state m s) a | _ \<Rightarrow> None)"

text \<open>
  The ordinary object underneath a chain of proxies. A proxy is allocated after its
  target, so the chain descends; a heap cell that breaks this cannot be built by
  \<open>new Proxy\<close> and the walk stops there.
\<close>

function base_of :: "(addr \<Rightarrow> obj) \<Rightarrow> addr \<Rightarrow> addr" where
  "base_of h a = (case h a of
      Proxy t hs \<Rightarrow> (if t < a then base_of h t else a)
    | Plain rt c e ps \<Rightarrow> a)"
  by pat_completeness auto
termination
  by (relation "measure snd") auto

declare base_of.simps [simp del]

definition base_obj :: "rstate \<Rightarrow> addr \<Rightarrow> obj" where
  "base_obj s a = heap s (base_of (heap s) a)"

subsection \<open>Property reads\<close>

datatype ReactiveFlags = SKIP | IS_REACTIVE | IS_READONLY | IS_SHALLOW | RAW

fun flag :: "ReactiveFlags \<Rightarrow> string" where
  "flag SKIP = ''__v_skip''"
| "flag IS_REACTIVE = ''__v_isReactive''"
| "flag IS_READONLY = ''__v_isReadonly''"
| "flag IS_SHALLOW = ''__v_isShallow''"
| "flag RAW = ''__v_raw''"

text \<open>
  Modelled from the spec: the \<open>get\<close> traps of the handler tables live in baseHandlers
  and collectionHandlers, which are not part of the sources at hand. The spec gives a
  proxy four hidden flags: \<open>isReactive\<close> (the mutable kinds), \<open>isReadonly\<close> (the
  readonly kinds), \<open>isShallow\<close> (the shallow kinds) and the back-reference \<open>raw\<close> to
  the target it wraps. Any other key reaches the property of the underlying object.
\<close>

definition handler_get :: "rstate \<Rightarrow> addr \<Rightarrow> handlers \<Rightarrow> string \<Rightarrow> jsval" where
  "handler_get s t h k =
    (if k = flag IS_REACTIVE then JBool (\<not> handlers_readonly h)
     else if k = flag IS_READONLY then JBool (handlers_readonly h)
     else if k = flag IS_SHALLOW then JBool (handlers_shallow h)
     else if k = flag RAW then JRef t
     else prop_lookup (obj_props (base_obj s t)) k)"

definition obj_get :: "rstate \<Rightarrow> addr \<Rightarrow> string \<Rightarrow> jsval" where
  "obj_get s a k = (case heap s a of
      Plain rt c e ps \<Rightarrow> prop_lookup ps k
    | Proxy t h \<Rightarrow> handler_get s t h k)"

text \<open>
  \<open>value[key]\<close>: reading a property of \<open>null\<close> or \<open>undefined\<close> throws a TypeError;
  the other primitives are boxed and the built-in prototypes carry none of the
  \<open>__v_\<close> keys.
\<close>

fun get_prop :: "rstate \<Rightarrow> jsval \<Rightarrow> string \<Rightarrow> error + jsval" where
  "get_prop s JUndefined k = Inl TypeError"
| "get_prop s JNull k = Inl TypeError"
| "get_prop s (JRef a) k = Inr (obj_get s a k)"
| "get_prop s v k = Inr JUndefined"

text \<open>\<open>value && value[key]\<close>\<close>

definition and_get :: "rstate \<Rightarrow> jsval \<Rightarrow> string \<Rightarrow> error + jsval" where
  "and_get s v k = (if truthy v then get_prop s v k else Inr v)"

text \<open>
  Modelled from the spec: \<open>isObject\<close> and \<open>toRawType\<close> come from the shared package,
  which is not part of the sources at hand. A structured value is a non-null value
  whose \<open>typeof\<close> is \<open>object\<close>; \<open>toRawType\<close> is the tag of
  \<open>Object.prototype.toString\<close>, which a proxy takes from its target.
\<close>

definition isObject :: "rstate \<Rightarrow> jsval \<Rightarrow> bool" where
  "isObject s v = (case v of JRef a \<Rightarrow> \<not> obj_callable (base_obj s a) | _ \<Rightarrow> False)"

fun toRawType :: "rstate \<Rightarrow> jsval \<Rightarrow> string" where
  "toRawType s JUndefined = ''Undefined''"
| "toRawType s JNull = ''Null''"
| "toRawType s (JBool b) = ''Boolean''"
| "toRawType s (JNum n) = ''Number''"
| "toRawType s JNaN = ''Number''"
| "toRawType s (JStr x) = ''String''"
| "toRawType s (JSym i) = ''Symbol''"
| "toRawType s (JBigInt n) = ''BigInt''"
| "toRawType s (JRef a) = obj_raw_type (base_obj s a)"

text \<open>\<open>Object.isExtensible\<close>: false on a primitive, forwarded by a proxy to its target.\<close>

definition isExtensible :: "rstate \<Rightarrow> jsval \<Rightarrow> bool" where
  "isExtensible s v = (case v of JRef a \<Rightarrow> obj_extensible (base_obj s a) | _ \<Rightarrow> False)"

subsection \<open>Target classification\<close>

datatype TargetType = INVALID | COMMON | COLLECTION

definition targetTypeMap :: "string \<Rightarrow> TargetType" where
  "targetTypeMap rawType =
    (if rawType = ''Object'' \<or> rawType = ''Array'' then COMMON
     else if rawType = ''Map'' \<or> rawType = ''Set'' \<or> rawType = ''WeakMap'' \<or> rawType = ''WeakSet''
       then COLLECTION
     else INVALID)"

definition getTargetType :: "rstate \<Rightarrow> jsval \<Rightarrow> error + TargetType" where
  "getTargetType s v = (case get_prop s v (flag SKIP) of
      Inl e \<Rightarrow> Inl e
    | Inr sk \<Rightarrow> Inr (if truthy sk \<or> \<not> isExtensible s v then INVALID
                     else targetTypeMap (toRawType s v)))"

subsection \<open>Queries\<close>

definition isReadonly :: "rstate \<Rightarrow> jsval \<Rightarrow> error + bool" where
  "isReadonly s v = (case and_get s v (flag IS_READONLY) of
      Inl e \<Rightarrow> Inl e
    | Inr r \<Rightarrow> Inr (truthy r))"

definition isShallow :: "rstate \<Rightarrow> jsval \<Rightarrow> error + bool" where
  "isShallow s v = (case and_get s v (flag IS_SHALLOW) of
      Inl e \<Rightarrow> Inl e
    | Inr r \<Rightarrow> Inr (truthy r))"

text \<open>
  \<open>isReactive\<close> and \<open>toRaw\<close> recurse along the \<open>__v_raw\<close> chain, which an object with
  a hand-written \<open>__v_raw\<close> property can make cyclic: \<open>None\<close> is the call whose
  recursion does not end and that therefore returns no value (an engine stops it with a
  \<open>RangeError\<close> when its call stack is full).
\<close>

partial_function (option) isReactive :: "rstate \<Rightarrow> jsval \<Rightarrow> (error + bool) option" where
  "isReactive s v = (case isReadonly s v of
      Inl e \<Rightarrow> Some (Inl e)
    | Inr ro \<Rightarrow>
        (if ro then
           (case get_prop s v (flag RAW) of
              Inl e \<Rightarrow> Some (Inl e)
            | Inr raw \<Rightarrow> isReactive s raw)
         else
           (case and_get s v (flag IS_REACTIVE) of
              Inl e \<Rightarrow> Some (Inl e)
            | Inr r \<Rightarrow> Some (Inr (truthy r)))))"

definition isProxy :: "rstate \<Rightarrow> jsval \<Rightarrow> (error + bool) option" where
  "isProxy s v = (case isReactive s v of
      None \<Rightarrow> None
    | Some (Inl e) \<Rightarrow> Some (Inl e)
    | Some (Inr r) \<Rightarrow> (if r then Some (Inr True) else Some (isReadonly s v)))"

partial_function (option) toRaw :: "rstate \<Rightarrow> jsval \<Rightarrow> (error + jsval) option" where
  "toRaw s observed = (case and_get s observed (flag RAW) of
      Inl e \<Rightarrow> Some (Inl e)
    | Inr raw \<Rightarrow> (if truthy raw then toRaw s raw else Some (Inr observed)))"

subsection \<open>Wrapping\<close>

text \<open>\<open>new Proxy(target, handlers)\<close> throws unless the target is an object.\<close>

definition new_proxy :: "rstate \<Rightarrow> jsval \<Rightarrow> handlers \<Rightarrow> error + (addr \<times> rstate)" where
  "new_proxy s v h = (case v of
      JRef a \<Rightarrow> Inr (nxt s, s\<lparr>heap := (heap s)(nxt s := Proxy a h), nxt := Suc (nxt s)\<rparr>)
    | _ \<Rightarrow> Inl TypeError)"

text \<open>\<open>dev\<close> is the build flag \<open>__DEV__\<close>.\<close>

definition createReactiveObject ::
  "bool \<Rightarrow> rstate \<Rightarrow> jsval \<Rightarrow> bool \<Rightarrow> handlers \<Rightarrow> handlers \<Rightarrow> proxy_map \<Rightarrow> error + (jsval \<times> rstate)"
where
  "createReactiveObject dev s target isRo baseHandlers collectionHandlers proxyMap =
    (if \<not> isObject s target then
       Inr (target, if dev then s\<lparr>warnings := warnings s @ [target]\<rparr> else s)
     else case get_prop s target (flag RAW) of
       Inl e \<Rightarrow> Inl e
     | Inr raw \<Rightarrow>
        (case (if truthy raw \<and> isRo then get_prop s target (flag IS_REACTIVE)
               else Inr JUndefined) of
           Inl e \<Rightarrow> Inl e
         | Inr isRe \<Rightarrow>
            if truthy raw \<and> \<not> (isRo \<and> truthy isRe) then Inr (target, s)
            else case map_get proxyMap s target of
              Some existingProxy \<Rightarrow> Inr (JRef existingProxy, s)
            | None \<Rightarrow>
               (case getTargetType s target of
                  Inl e \<Rightarrow> Inl e
                | Inr targetType \<Rightarrow>
                   if targetType = INVALID then Inr (target, s)
                   else case new_proxy s target
                          (if targetType = COLLECTION then collectionHandlers else baseHandlers) of
                     Inl e \<Rightarrow> Inl e
                   | Inr (p, s') \<Rightarrow>
                      (case target of
                         JRef a \<Rightarrow> Inr (JRef p, map_set proxyMap a p s')
                       | _ \<Rightarrow> Inl TypeError))))"

definition reactive :: "bool \<Rightarrow> rstate \<Rightarrow> jsval \<Rightarrow> error + (jsval \<times> rstate)" where
  "reactive dev s target = (case isReadonly s target of
      Inl e \<Rightarrow> Inl e
    | Inr ro \<Rightarrow>
       if ro then Inr (target, s)
       else createReactiveObject dev s target False
              mutableHandlers mutableCollectionHandlers ReactiveMap)"

definition shallowReactive :: "bool \<Rightarrow> rstate \<Rightarrow> jsval \<Rightarrow> error + (jsval \<times> rstate)" where
  "shallowReactive dev s target =
     createReactiveObject dev s target False
       shallowReactiveHandlers shallowCollectionHandlers ShallowReactiveMap"

definition readonly :: "bool \<Rightarrow> rstate \<Rightarrow> jsval \<Rightarrow> error + (jsval \<times> rstate)" where
  "readonly dev s target =
     createReactiveObject dev s target True
       readonlyHandlers readonlyCollectionHandlers ReadonlyMap"

definition shallowReadonly :: "bool \<Rightarrow> rstate \<Rightarrow> jsval \<Rightarrow> error + (jsval \<times> rstate)" where
  "shallowReadonly dev s target =
     createReactiveObject dev s target True
       shallowReadonlyHandlers shallowReadonlyCollectionHandlers ShallowReadonlyMap"

text \<open>The four wrap kinds of the spec, and the wrap operation that dispatches on them.\<close>

datatype kind = KReactive | KShallowReactive | KReadonly | KShallowReadonly

fun wrap :: "bool \<Rightarrow> kind \<Rightarrow> rstate \<Rightarrow> jsval \<Rightarrow> error + (jsval \<times> rstate)" where
  "wrap dev KReactive s x = reactive dev s x"
| "wrap dev KShallowReactive s x = shallowReactive dev s x"
| "wrap dev KReadonly s x = readonly dev s x"
| "wrap dev KShallowReadonly s x = shallowReadonly dev s x"

fun kind_map :: "kind \<Rightarrow> proxy_map" where
  "kind_map KReactive = ReactiveMap"
| "kind_map KShallowReactive = ShallowReactiveMap"
| "kind_map KReadonly = ReadonlyMap"
| "kind_map KShallowReadonly = ShallowReadonlyMap"

fun kind_readonly :: "kind \<Rightarrow> bool" where
  "kind_readonly KReadonly = True"
| "kind_readonly KShallowReadonly = True"
| "kind_readonly k = False"

subsection \<open>markRaw\<close>

text \<open>
  Modelled from the spec: \<open>def\<close> comes from the shared package, which is not part of
  the sources at hand; the spec has \<open>markRaw\<close> set the permanent skip flag and return
  the same identity. \<open>def\<close> is \<open>Object.defineProperty\<close> with a configurable data
  property: it throws on a primitive, and on an object that is not extensible and
  lacks the key. The handler tables have no trap for it, so a proxy passes it on to
  the underlying object.
\<close>

definition def_prop :: "rstate \<Rightarrow> jsval \<Rightarrow> string \<Rightarrow> jsval \<Rightarrow> error + rstate" where
  "def_prop s v k x = (case v of
      JRef a \<Rightarrow>
        (let b = base_of (heap s) a in
         case heap s b of
           Plain rt c e ps \<Rightarrow>
             if e \<or> map_of ps k \<noteq> None
             then Inr (s\<lparr>heap := (heap s)(b := Plain rt c e ((k, x) # ps))\<rparr>)
             else Inl TypeError
         | Proxy t h \<Rightarrow> Inl TypeError)
    | _ \<Rightarrow> Inl TypeError)"

definition markRaw :: "rstate \<Rightarrow> jsval \<Rightarrow> error + (jsval \<times> rstate)" where
  "markRaw s v = (case def_prop s v (flag SKIP) (JBool True) of
      Inl e \<Rightarrow> Inl e
    | Inr s' \<Rightarrow> Inr (v, s'))"

subsection \<open>Well-formed identity maps and raw targets\<close>

fun map_base_handlers :: "proxy_map \<Rightarrow> handlers" where
  "map_base_handlers ReactiveMap = mutableHandlers"
| "map_base_handlers ShallowReactiveMap = shallowReactiveHandlers"
| "map_base_handlers ReadonlyMap = readonlyHandlers"
| "map_base_handlers ShallowReadonlyMap = shallowReadonlyHandlers"

fun map_collection_handlers :: "proxy_map \<Rightarrow> handlers" where
  "map_collection_handlers ReactiveMap = mutableCollectionHandlers"
| "map_collection_handlers ShallowReactiveMap = shallowCollectionHandlers"
| "map_collection_handlers ReadonlyMap = readonlyCollectionHandlers"
| "map_collection_handlers ShallowReadonlyMap = shallowReadonlyCollectionHandlers"

text \<open>
  Every entry of an identity map leads from a target to an allocated proxy over that
  very target, built with one of the two handler tables of the map's kind.
\<close>

definition entry_ok :: "proxy_map \<Rightarrow> rstate \<Rightarrow> addr \<times> addr \<Rightarrow> bool" where
  "entry_ok m s ap = (case ap of (a, p) \<Rightarrow>
      a < p \<and> p < nxt s \<and>
      (heap s p = Proxy a (map_base_handlers m) \<or> heap s p = Proxy a (map_collection_handlers m)))"

definition map_ok :: "proxy_map \<Rightarrow> rstate \<Rightarrow> bool" where
  "map_ok m s = list_all (entry_ok m s) (map_of_state m s)"

definition maps_ok :: "rstate \<Rightarrow> bool" where
  "maps_ok s = (map_ok ReactiveMap s \<and> map_ok ShallowReactiveMap s \<and>
                map_ok ReadonlyMap s \<and> map_ok ShallowReadonlyMap s)"

text \<open>
  A value that is not wrapped: a primitive, or an allocated ordinary object that
  carries no truthy \<open>__v_raw\<close> back-reference.
\<close>

definition unwrapped :: "rstate \<Rightarrow> jsval \<Rightarrow> bool" where
  "unwrapped s x = (case x of
      JRef a \<Rightarrow> a < nxt s \<and>
        (case heap s a of
           Plain rt c e ps \<Rightarrow> \<not> truthy (prop_lookup ps (flag RAW))
         | Proxy t h \<Rightarrow> False)
    | _ \<Rightarrow> True)"

text \<open>
  The spec's target: a raw, unwrapped structured value eligible for interception, that
  is an allocated ordinary object, not callable, extensible, of an allowed type, not
  skip-flagged, and carrying neither a raw back-reference nor a readonly flag.
\<close>

definition raw_target :: "rstate \<Rightarrow> addr \<Rightarrow> bool" where
  "raw_target s a = (a < nxt s \<and>
      (case heap s a of
         Plain rt c e ps \<Rightarrow>
           \<not> c \<and> e \<and> targetTypeMap rt \<noteq> INVALID \<and>
           \<not> truthy (prop_lookup ps (flag SKIP)) \<and>
           \<not> truthy (prop_lookup ps (flag RAW)) \<and>
           \<not> truthy (prop_lookup ps (flag IS_READONLY))
       | Proxy t h \<Rightarrow> False))"

text \<open>
  A page that has just created one plain object (address 0) and has wrapped nothing
  yet: the identity maps are empty.
\<close>

definition fresh_state :: rstate where
  "fresh_state = \<lparr>heap = (\<lambda>a. Plain ''Object'' False True []), nxt = 1,
     reactiveMap = [], shallowReactiveMap = [], readonlyMap = [], shallowReadonlyMap = [],
     warnings = []\<rparr>"

text \<open>
  The same page after \<open>reactive\<close> of that object (its proxy is at address 1), and
  then after \<open>markRaw\<close> of the object.
\<close>

definition wrapped_state :: rstate where
  "wrapped_state = fresh_state\<lparr>heap := (heap fresh_state)(1 := Proxy 0 mutableHandlers),
     nxt := 2, reactiveMap := [(0, 1)]\<rparr>"

definition marked_state :: rstate where
  "marked_state = wrapped_state\<lparr>heap := (heap wrapped_state)
     (0 := Plain ''Object'' False True [(''__v_skip'', JBool True)])\<rparr>"


text \<open>
  A page whose one object carries a hand-written \<open>__v_raw\<close> property that refers back
  to the object itself.
\<close>

definition cyclic_state :: rstate where
  "cyclic_state = \<lparr>heap = (\<lambda>a. Plain ''Object'' False True [(''__v_raw'', JRef 0)]), nxt = 1,
     reactiveMap = [], shallowReactiveMap = [], readonlyMap = [], shallowReadonlyMap = [],
     warnings = []\<rparr>"

section \<open>The keep-alive cache (KeepAlive.ts)\<close>

subsection \<open>Tree nodes\<close>

text \<open>
  Modelled from the spec: \<open>ShapeFlags\<close> comes from the shared package, which is not
  part of the sources at hand. The code only tests, sets and clears single flags, so a
  node's \<open>shapeFlag\<close> is the set of flags that are on.
\<close>

datatype shape_flag =
    ELEMENT
  | FUNCTIONAL_COMPONENT
  | STATEFUL_COMPONENT
  | SUSPENSE
  | COMPONENT_SHOULD_KEEP_ALIVE
  | COMPONENT_KEPT_ALIVE

text \<open>
  A component (the \<open>type\<close> of a node): its identity, what \<open>getComponentName\<close> returns
  for it, whether it carries \<open>__asyncLoader\<close>, and what \<open>getComponentName\<close> returns
  for \<open>__asyncResolved || {}\<close>.
\<close>

record comp =
  cid :: nat
  cname :: "string option"
  asyncLoader :: bool
  asyncResolvedName :: "string option"

datatype vkey = KStr string | KNum int | KSym nat

datatype cache_key = CKey vkey | CComp nat

text \<open>
  Nodes are values here: the properties proved below are about the key set, the cache map and the
  node handed back to the renderer, none of which depends on two references sharing
  one node.
\<close>

datatype vnode = VNode
  (vtype: comp)
  (vkey: "vkey option")
  (shapeFlag: "shape_flag set")
  (el: "nat option")
  (component: "nat option")
  (ssContent: "vnode option")

text \<open>An entry of \<open>slots.default()\<close>: a node, or anything that fails \<open>isVNode\<close>.\<close>

datatype child = NotVNode | Node vnode

fun set_shapeFlag :: "shape_flag set \<Rightarrow> vnode \<Rightarrow> vnode" where
  "set_shapeFlag f (VNode t k sf e c ss) = VNode t k f e c ss"

fun set_mounted :: "nat option \<Rightarrow> nat option \<Rightarrow> vnode \<Rightarrow> vnode" where
  "set_mounted e' c' (VNode t k sf e c ss) = VNode t k sf e' c' ss"

definition resetShapeFlag :: "vnode \<Rightarrow> vnode" where
  "resetShapeFlag vnode =
     set_shapeFlag (shapeFlag vnode - {COMPONENT_SHOULD_KEEP_ALIVE} - {COMPONENT_KEPT_ALIVE}) vnode"

text \<open>\<open>ssContent!\<close> may be \<open>null\<close>: \<open>None\<close>.\<close>

definition getInnerChild :: "vnode \<Rightarrow> vnode option" where
  "getInnerChild vnode = (if SUSPENSE \<in> shapeFlag vnode then ssContent vnode else Some vnode)"

subsection \<open>Match patterns and props\<close>

datatype pattern = PStr string | PRegExp "string \<Rightarrow> bool" | PArr "pattern list"

fun split_comma :: "string \<Rightarrow> string list" where
  "split_comma [] = [[]]"
| "split_comma (c # cs) =
     (if c = CHR '','' then [] # split_comma cs
      else (case split_comma cs of [] \<Rightarrow> [[c]] | x # xs \<Rightarrow> (c # x) # xs))"

fun matches :: "pattern \<Rightarrow> string \<Rightarrow> bool" where
  "matches (PArr ps) name = list_ex (\<lambda>p. matches p name) ps"
| "matches (PStr s) name = (name \<in> set (split_comma s))"
| "matches (PRegExp test) name = test name"

text \<open>
  The prop \<open>max\<close> is a number, a string, or absent. The render function asks two
  things of it, both answered by the language itself: whether it is truthy, and what
  \<open>parseInt(max, 10)\<close> returns, which reads the string form of \<open>max\<close> and is an
  integer or \<open>NaN\<close> (\<open>None\<close>). So \<open>max\<close> is given by these two answers. The number
  2 and the string \<open>2\<close> are truthy and parse to 2; an absent \<open>max\<close>, the number 0
  and the empty string are falsy; the string \<open>0\<close> and the number 0.5 are truthy and
  parse to 0; the number 1e21, whose string form is \<open>1e+21\<close>, is truthy and parses
  to 1.
\<close>

record max_prop =
  max_truthy :: bool
  parseInt :: "int option"

text \<open>\<open>keys.size > parseInt(max, 10)\<close>: a comparison with \<open>NaN\<close> is false.\<close>

definition size_exceeds :: "nat \<Rightarrow> int option \<Rightarrow> bool" where
  "size_exceeds n m = (case m of None \<Rightarrow> False | Some k \<Rightarrow> int n > k)"

record KeepAliveProps =
  include_p :: "pattern option"
  exclude_p :: "pattern option"
  max_p :: max_prop

fun pattern_truthy :: "pattern option \<Rightarrow> bool" where
  "pattern_truthy None = False"
| "pattern_truthy (Some (PStr s)) = (s \<noteq> [])"
| "pattern_truthy (Some p) = True"

fun name_truthy :: "string option \<Rightarrow> bool" where
  "name_truthy None = False"
| "name_truthy (Some n) = (n \<noteq> [])"

fun name_matches :: "pattern option \<Rightarrow> string option \<Rightarrow> bool" where
  "name_matches (Some p) (Some n) = matches p n"
| "name_matches p n = False"

subsection \<open>The state of one keep-alive instance\<close>

text \<open>
  \<open>cache\<close> is a \<open>Map\<close> and \<open>keys\<close> a \<open>Set\<close>, both in insertion order; a cached
  value can be \<open>null\<close> (\<open>None\<close>) when a suspense node has no content. \<open>unmounted\<close>
  lists the nodes handed to the renderer's \<open>unmount\<close>, \<open>warned\<close> counts the
  development warnings.
\<close>

record ka_state =
  cache :: "(cache_key \<times> vnode option) list"
  keys :: "cache_key list"
  current :: "vnode option"
  pendingCacheKey :: "cache_key option"
  unmounted :: "vnode list"
  warned :: nat

definition cache_set :: "cache_key \<Rightarrow> vnode option \<Rightarrow> (cache_key \<times> vnode option) list
    \<Rightarrow> (cache_key \<times> vnode option) list" where
  "cache_set k v c =
     (if k \<in> fst ` set c then map (\<lambda>(k', v'). if k' = k then (k', v) else (k', v')) c
      else c @ [(k, v)])"

definition cache_delete :: "cache_key \<Rightarrow> (cache_key \<times> vnode option) list
    \<Rightarrow> (cache_key \<times> vnode option) list" where
  "cache_delete k c = filter (\<lambda>(k', v'). k' \<noteq> k) c"

definition keys_add :: "cache_key \<Rightarrow> cache_key list \<Rightarrow> cache_key list" where
  "keys_add k ks = (if k \<in> set ks then ks else ks @ [k])"

definition keys_delete :: "cache_key \<Rightarrow> cache_key list \<Rightarrow> cache_key list" where
  "keys_delete k ks = removeAll k ks"

definition ka_init :: ka_state where
  "ka_init = \<lparr>cache = [], keys = [], current = None, pendingCacheKey = None,
     unmounted = [], warned = 0\<rparr>"

subsection \<open>Pruning\<close>

text \<open>The local \<open>unmount\<close>: reset the flags, then the renderer's \<open>unmount\<close>.\<close>

definition unmount :: "vnode \<Rightarrow> ka_state \<Rightarrow> ka_state" where
  "unmount vnode s = s\<lparr>unmounted := unmounted s @ [resetShapeFlag vnode]\<rparr>"

text \<open>
  \<open>pruneCacheEntry\<close>: when the cache holds no node under the key, \<open>cached\<close> is
  \<open>undefined\<close> (or \<open>null\<close>) and reading its \<open>type\<close> or \<open>shapeFlag\<close> throws.
\<close>

definition pruneCacheEntry :: "ka_state \<Rightarrow> cache_key \<Rightarrow> error + ka_state" where
  "pruneCacheEntry s key = (case map_of (cache s) key of
      Some (Some cached) \<Rightarrow>
        (let s1 = (case current s of
                     None \<Rightarrow> unmount cached s
                   | Some cur \<Rightarrow>
                       if cid (vtype cached) \<noteq> cid (vtype cur) then unmount cached s
                       else s\<lparr>current := Some (resetShapeFlag cur)\<rparr>)
         in Inr (s1\<lparr>cache := cache_delete key (cache s1), keys := keys_delete key (keys s1)\<rparr>))
    | _ \<Rightarrow> Inl TypeError)"

text \<open>
  \<open>pruneCache\<close>: \<open>cache.forEach\<close> visits the entries in order; the callback deletes
  at most the entry it is visiting, so the loop runs over the entries as they were.
  A cached \<open>null\<close> throws on \<open>vnode.type\<close>.
\<close>

fun pruneCache_loop :: "(string \<Rightarrow> bool) option \<Rightarrow> (cache_key \<times> vnode option) list
    \<Rightarrow> ka_state \<Rightarrow> error + ka_state" where
  "pruneCache_loop flt [] s = Inr s"
| "pruneCache_loop flt ((key, None) # rest) s = Inl TypeError"
| "pruneCache_loop flt ((key, Some vnode) # rest) s =
     (let name = cname (vtype vnode) in
      if name_truthy name \<and> (case flt of None \<Rightarrow> True | Some f \<Rightarrow> \<not> f (the name)) then
        (case pruneCacheEntry s key of
           Inl e \<Rightarrow> Inl e
         | Inr s' \<Rightarrow> pruneCache_loop flt rest s')
      else pruneCache_loop flt rest s)"

definition pruneCache :: "(string \<Rightarrow> bool) option \<Rightarrow> ka_state \<Rightarrow> error + ka_state" where
  "pruneCache flt s = pruneCache_loop flt (cache s) s"

text \<open>The callback of the watcher on \<open>include\<close> and \<open>exclude\<close>.\<close>

definition on_patterns_change :: "pattern option \<Rightarrow> pattern option \<Rightarrow> ka_state \<Rightarrow> error + ka_state"
where
  "on_patterns_change inc exc s =
    (case (if pattern_truthy inc then pruneCache (Some (\<lambda>name. matches (the inc) name)) s
           else Inr s) of
       Inl e \<Rightarrow> Inl e
     | Inr s1 \<Rightarrow>
        if pattern_truthy exc then pruneCache (Some (\<lambda>name. \<not> matches (the exc) name)) s1
        else Inr s1)"

subsection \<open>Caching after render\<close>

text \<open>
  \<open>cacheSubtree\<close>, the mounted and updated hook; \<open>subTree\<close> is \<open>instance.subTree\<close>,
  which the renderer sets to the root node of the last render.
\<close>

definition cacheSubtree :: "ka_state \<Rightarrow> vnode \<Rightarrow> ka_state" where
  "cacheSubtree s subTree = (case pendingCacheKey s of
      None \<Rightarrow> s
    | Some k \<Rightarrow> s\<lparr>cache := cache_set k (getInnerChild subTree) (cache s)\<rparr>)"

subsection \<open>The render function\<close>

datatype render_result =
    RNull
  | RChildren "child list"
  | RRaw "child option"
  | RVNode vnode

text \<open>The name the eligibility test uses, and the test itself.\<close>

definition render_name :: "vnode \<Rightarrow> string option" where
  "render_name vnode =
     (if asyncLoader (vtype vnode) then asyncResolvedName (vtype vnode) else cname (vtype vnode))"

definition ineligible :: "KeepAliveProps \<Rightarrow> vnode \<Rightarrow> bool" where
  "ineligible props vnode =
    (let name = render_name vnode in
       (pattern_truthy (include_p props) \<and>
          (\<not> name_truthy name \<or> \<not> name_matches (include_p props) name))
     \<or> (pattern_truthy (exclude_p props) \<and> name_truthy name \<and> name_matches (exclude_p props) name))"

definition cache_key_of :: "vnode \<Rightarrow> cache_key" where
  "cache_key_of vnode = (case vkey vnode of None \<Rightarrow> CComp (cid (vtype vnode)) | Some k \<Rightarrow> CKey k)"

definition keep_and_return :: "vnode \<Rightarrow> ka_state \<Rightarrow> error + (render_result \<times> ka_state)" where
  "keep_and_return vnode s =
    (let v = set_shapeFlag (insert COMPONENT_SHOULD_KEEP_ALIVE (shapeFlag vnode)) vnode
     in Inr (RVNode v, s\<lparr>current := Some v\<rparr>))"

definition render_cached :: "KeepAliveProps \<Rightarrow> vnode \<Rightarrow> ka_state \<Rightarrow> error + (render_result \<times> ka_state)"
where
  "render_cached props vnode s0 =
    (let key = cache_key_of vnode;
         cachedVNode = map_of (cache s0) key;
         s = s0\<lparr>pendingCacheKey := Some key\<rparr>
     in case cachedVNode of
          Some (Some cached) \<Rightarrow>
            keep_and_return
              (set_shapeFlag (insert COMPONENT_KEPT_ALIVE (shapeFlag vnode))
                 (set_mounted (el cached) (component cached) vnode))
              (s\<lparr>keys := keys_add key (keys_delete key (keys s))\<rparr>)
        | _ \<Rightarrow>
            (let s1 = s\<lparr>keys := keys_add key (keys s)\<rparr> in
             if max_truthy (max_p props) \<and> size_exceeds (length (keys s1)) (parseInt (max_p props)) then
               (case keys s1 of
                  [] \<Rightarrow> Inl TypeError
                | oldest # rest \<Rightarrow>
                    (case pruneCacheEntry s1 oldest of
                       Inl e \<Rightarrow> Inl e
                     | Inr s2 \<Rightarrow> keep_and_return vnode s2))
             else keep_and_return vnode s1))"

text \<open>\<open>slot\<close> is \<open>slots.default\<close>, given by the children it returns; \<open>dev\<close> is \<open>__DEV__\<close>.\<close>

definition render :: "bool \<Rightarrow> KeepAliveProps \<Rightarrow> child list option \<Rightarrow> ka_state
    \<Rightarrow> error + (render_result \<times> ka_state)" where
  "render dev props slot s0 =
    (let s = s0\<lparr>pendingCacheKey := None\<rparr> in
     case slot of
       None \<Rightarrow> Inr (RNull, s)
     | Some children \<Rightarrow>
        (let rawVNode = (case children of [] \<Rightarrow> None | c # cs \<Rightarrow> Some c) in
         if length children > 1 then
           Inr (RChildren children,
                s\<lparr>current := None, warned := (if dev then Suc (warned s) else warned s)\<rparr>)
         else case rawVNode of
           Some (Node raw) \<Rightarrow>
             if STATEFUL_COMPONENT \<notin> shapeFlag raw \<and> SUSPENSE \<notin> shapeFlag raw then
               Inr (RRaw rawVNode, s\<lparr>current := None\<rparr>)
             else
               (case getInnerChild raw of
                  None \<Rightarrow> Inl TypeError
                | Some vnode \<Rightarrow>
                    if ineligible props vnode then
                      Inr (RRaw rawVNode, s\<lparr>current := Some vnode\<rparr>)
                    else render_cached props vnode s)
         | _ \<Rightarrow> Inr (RRaw rawVNode, s\<lparr>current := None\<rparr>)))"


subsection \<open>Invariants\<close>

text \<open>The key set and the cache map hold the same keys.\<close>

definition agree :: "ka_state \<Rightarrow> bool" where
  "agree s = (set (keys s) = fst ` set (cache s))"

text \<open>
  The state between two renders, once the hook has run: \<open>keys\<close> has no duplicate,
  \<open>cache\<close> maps each key once and to a node, and both hold the same keys.
\<close>

definition cache_nonnull :: "(cache_key \<times> vnode option) list \<Rightarrow> bool" where
  "cache_nonnull c = list_all (\<lambda>kv. snd kv \<noteq> None) c"

definition ka_inv :: "ka_state \<Rightarrow> bool" where
  "ka_inv s = (distinct (keys s) \<and> distinct (map fst (cache s)) \<and>
     set (keys s) = fst ` set (cache s) \<and> cache_nonnull (cache s))"

subsection \<open>A render followed by its hook\<close>

text \<open>
  What the renderer does with a rendered node, as far as the cache can see: a node
  flagged kept-alive is activated and keeps the element and instance copied onto it; any
  other node is mounted, which gives it the new element and instance \<open>n\<close>. The
  mounted or updated hook then runs with that node as \<open>instance.subTree\<close>.
\<close>

definition patched :: "nat \<Rightarrow> vnode \<Rightarrow> vnode" where
  "patched n v = (if COMPONENT_KEPT_ALIVE \<in> shapeFlag v then v else set_mounted (Some n) (Some n) v)"

definition show_child :: "bool \<Rightarrow> KeepAliveProps \<Rightarrow> vnode \<Rightarrow> nat \<Rightarrow> ka_state \<Rightarrow> error + (render_result \<times> ka_state)" where
  "show_child dev props v n s = (case render dev props (Some [Node v]) s of
      Inl e \<Rightarrow> Inl e
    | Inr (res, s') \<Rightarrow> Inr (res, case res of RVNode v' \<Rightarrow> cacheSubtree s' (patched n v') | _ \<Rightarrow> s'))"

fun show_all :: "bool \<Rightarrow> KeepAliveProps \<Rightarrow> (vnode \<times> nat) list \<Rightarrow> ka_state \<Rightarrow> error + ka_state" where
  "show_all dev props [] s = Inr s"
| "show_all dev props ((v, n) # rest) s = (case show_child dev props v n s of
      Inl e \<Rightarrow> Inl e
    | Inr (res, s') \<Rightarrow> show_all dev props rest s')"

text \<open>
  The watcher on \<open>include\<close> and \<open>exclude\<close> flushes \<open>post\<close>: when the two props
  change, its callback prunes after the render that the change causes (the source:
  prune post-render after \<open>current\<close> has been updated). The updated hook of that
  render is a post-render job as well. Here the callback runs first, between the render
  and the hook.
\<close>

definition show_child_prune :: "bool \<Rightarrow> KeepAliveProps \<Rightarrow> vnode \<Rightarrow> nat \<Rightarrow> ka_state
    \<Rightarrow> error + ka_state" where
  "show_child_prune dev props v n s = (case render dev props (Some [Node v]) s of
      Inl e \<Rightarrow> Inl e
    | Inr (res, s1) \<Rightarrow>
       (case on_patterns_change (include_p props) (exclude_p props) s1 of
          Inl e \<Rightarrow> Inl e
        | Inr s2 \<Rightarrow>
            Inr (case res of RVNode v' \<Rightarrow> cacheSubtree s2 (patched n v') | _ \<Rightarrow> s2)))"

text \<open>
  The hook on its own, run on whatever a render has returned; one step after another;
  and what a run ends with: the keys of \<open>keys\<close> and the keys of \<open>cache\<close>, in order.
\<close>

fun hook_after :: "nat \<Rightarrow> error + (render_result \<times> ka_state) \<Rightarrow> error + ka_state" where
  "hook_after n (Inl e) = Inl e"
| "hook_after n (Inr (res, s)) =
     Inr (case res of RVNode v' \<Rightarrow> cacheSubtree s (patched n v') | _ \<Rightarrow> s)"

fun and_then :: "error + ka_state \<Rightarrow> (ka_state \<Rightarrow> error + ka_state) \<Rightarrow> error + ka_state" where
  "and_then (Inl e) f = Inl e"
| "and_then (Inr s) f = f s"

fun keys_of :: "error + ka_state \<Rightarrow> cache_key list option" where
  "keys_of (Inl e) = None"
| "keys_of (Inr s) = Some (keys s)"

fun cached_of :: "error + ka_state \<Rightarrow> cache_key list option" where
  "cached_of (Inl e) = None"
| "cached_of (Inr s) = Some (map fst (cache s))"

text \<open>A stateful component that is no suspense boundary: it is its own inner child.\<close>

definition plain_child :: "vnode \<Rightarrow> bool" where
  "plain_child v = (STATEFUL_COMPONENT \<in> shapeFlag v \<and> SUSPENSE \<notin> shapeFlag v)"

subsection \<open>Three children and a bound of two\<close>

definition comp_named :: "nat \<Rightarrow> string \<Rightarrow> comp" where
  "comp_named i n = \<lparr>cid = i, cname = Some n, asyncLoader = False, asyncResolvedName = None\<rparr>"

definition fresh_node :: "comp \<Rightarrow> vnode" where
  "fresh_node c = VNode c None {STATEFUL_COMPONENT} None None None"

definition max2 :: KeepAliveProps where
  "max2 = \<lparr>include_p = None, exclude_p = None, max_p = \<lparr>max_truthy = True, parseInt = Some 2\<rparr>\<rparr>"

definition nodeA :: vnode where "nodeA = fresh_node (comp_named 1 ''A'')"

definition nodeB :: vnode where "nodeB = fresh_node (comp_named 2 ''B'')"

definition nodeC :: vnode where "nodeC = fresh_node (comp_named 3 ''C'')"

definition kept :: "nat \<Rightarrow> vnode \<Rightarrow> vnode" where
  "kept n v = set_mounted (Some n) (Some n)
     (set_shapeFlag (insert COMPONENT_SHOULD_KEEP_ALIVE (shapeFlag v)) v)"

text \<open>The states after showing A then B, and after showing C next.\<close>

definition shown_AB :: ka_state where
  "shown_AB = \<lparr>cache = [(CComp 1, Some (kept 10 nodeA)), (CComp 2, Some (kept 20 nodeB))],
     keys = [CComp 1, CComp 2],
     current = Some (set_shapeFlag {COMPONENT_SHOULD_KEEP_ALIVE, STATEFUL_COMPONENT} nodeB),
     pendingCacheKey = Some (CComp 2), unmounted = [], warned = 0\<rparr>"

definition shown_ABC :: ka_state where
  "shown_ABC = \<lparr>cache = [(CComp 2, Some (kept 20 nodeB)), (CComp 3, Some (kept 30 nodeC))],
     keys = [CComp 2, CComp 3],
     current = Some (set_shapeFlag {COMPONENT_SHOULD_KEEP_ALIVE, STATEFUL_COMPONENT} nodeC),
     pendingCacheKey = Some (CComp 3), unmounted = [set_mounted (Some 10) (Some 10) nodeA],
     warned = 0\<rparr>"

fun rendered_node :: "error + (render_result \<times> ka_state) \<Rightarrow> vnode option" where
  "rendered_node (Inr (RVNode v, s)) = Some v"
| "rendered_node r = None"

text \<open>The state right after the first render of A, before the mounted hook.\<close>

definition rendered_A :: ka_state where
  "rendered_A = \<lparr>cache = [], keys = [CComp 1],
     current = Some (set_shapeFlag {COMPONENT_SHOULD_KEEP_ALIVE, STATEFUL_COMPONENT} nodeA),
     pendingCacheKey = Some (CComp 1), unmounted = [], warned = 0\<rparr>"

text \<open>The include pattern \<open>Foo\<close> and a child named \<open>Bar\<close>.\<close>

definition include_Foo :: KeepAliveProps where
  "include_Foo = \<lparr>include_p = Some (PStr ''Foo''), exclude_p = None, max_p = \<lparr>max_truthy = False, parseInt = None\<rparr>\<rparr>"

definition nodeBar :: vnode where "nodeBar = fresh_node (comp_named 4 ''Bar'')"

subsection \<open>Other bounds\<close>

text \<open>
  A bound of three and a bound of one; the string \<open>0\<close> as bound, which is truthy and
  parses to 0; a fourth child.
\<close>

definition max3 :: KeepAliveProps where
  "max3 = \<lparr>include_p = None, exclude_p = None, max_p = \<lparr>max_truthy = True, parseInt = Some 3\<rparr>\<rparr>"

definition max1 :: KeepAliveProps where
  "max1 = \<lparr>include_p = None, exclude_p = None, max_p = \<lparr>max_truthy = True, parseInt = Some 1\<rparr>\<rparr>"

definition max0 :: KeepAliveProps where
  "max0 = \<lparr>include_p = None, exclude_p = None, max_p = \<lparr>max_truthy = True, parseInt = Some 0\<rparr>\<rparr>"

definition nodeD :: vnode where "nodeD = fresh_node (comp_named 7 ''D'')"

text \<open>
  An async wrapper whose resolved component is named \<open>Foo\<close>: the wrapper itself is
  named \<open>AsyncComponentWrapper\<close>. A plain component named \<open>Foo\<close>. A bound of one
  together with the include pattern \<open>Foo\<close>.
\<close>

definition asyncFoo :: comp where
  "asyncFoo = \<lparr>cid = 5, cname = Some ''AsyncComponentWrapper'', asyncLoader = True,
     asyncResolvedName = Some ''Foo''\<rparr>"

definition nodeW :: vnode where "nodeW = fresh_node asyncFoo"

definition nodeFoo :: vnode where "nodeFoo = fresh_node (comp_named 6 ''Foo'')"

definition max1_Foo :: KeepAliveProps where
  "max1_Foo = \<lparr>include_p = Some (PStr ''Foo''), exclude_p = None,
     max_p = \<lparr>max_truthy = True, parseInt = Some 1\<rparr>\<rparr>"


section \<open>The async component wrapper (apiAsyncComponent.ts)\<close>

subsection \<open>Options and the closure state\<close>

text \<open>
  An \<open>Error\<close> object: the one a failed load carries (the handler in \<open>load\<close> wraps
  anything else into an \<open>Error\<close>), or the one the timeout timer makes. Both are truthy.
\<close>

datatype js_error = LoadError string | TimeoutError nat

text \<open>
  What the user's \<open>onError\<close> does with the callbacks it is handed: calls \<open>retry\<close>, calls
  \<open>fail\<close>, or calls neither.
\<close>

datatype user_choice = CallRetry | CallFail | CallNothing

text \<open>Components and promises are known by their identity.\<close>

record AsyncComponentOptions =
  loadingComponent :: "nat option"
  errorComponent :: "nat option"
  delay :: "nat option"
  timeout :: "nat option"
  userOnError :: "(js_error \<Rightarrow> nat \<Rightarrow> user_choice) option"

text \<open>The default of the destructuring: \<open>delay = 200\<close>.\<close>

definition delay_of :: "AsyncComponentOptions \<Rightarrow> nat" where
  "delay_of opts = (case delay opts of None \<Rightarrow> 200 | Some d \<Rightarrow> d)"

text \<open>
  The variables of the closure of \<open>defineAsyncComponent\<close>. \<open>loader_calls\<close> counts the
  calls of the user's \<open>loader\<close>; each call makes a new promise, named by \<open>fresh\<close>.
\<close>

record async_state =
  pendingRequest :: "nat option"
  resolvedComp :: "nat option"
  retries :: nat
  loader_calls :: nat
  fresh :: nat

definition async_init :: async_state where
  "async_init = \<lparr>pendingRequest = None, resolvedComp = None, retries = 0,
     loader_calls = 0, fresh = 0\<rparr>"

subsection \<open>load and retry\<close>

text \<open>
  \<open>pendingRequest || (pendingRequest = loader().catch(...).then(...))\<close>: a promise is
  truthy, so a pending request is returned as it is; otherwise the loader is called and
  the promise chained onto its result is stored and returned.
\<close>

definition load :: "async_state \<Rightarrow> nat \<times> async_state" where
  "load s = (case pendingRequest s of
      Some p \<Rightarrow> (p, s)
    | None \<Rightarrow> (fresh s, s\<lparr>pendingRequest := Some (fresh s),
                            loader_calls := Suc (loader_calls s),
                            fresh := Suc (fresh s)\<rparr>))"

definition retry :: "async_state \<Rightarrow> nat \<times> async_state" where
  "retry s = load (s\<lparr>retries := Suc (retries s), pendingRequest := None\<rparr>)"

text \<open>\<open>load()\<close> called \<open>n\<close> times in a row, with the promises it returned.\<close>

fun loads :: "nat \<Rightarrow> async_state \<Rightarrow> nat list \<times> async_state" where
  "loads 0 s = ([], s)"
| "loads (Suc n) s = (case load s of (p, s') \<Rightarrow> (case loads n s' of (ps, s'') \<Rightarrow> (p # ps, s'')))"

text \<open>
  The two handlers chained onto the loader's promise. On a rejection: without a user
  handler the error is thrown on; with one, the promise waits for the user, who may
  retry (the promise then follows the new request), fail (it rejects) or do nothing.
  On success the component is recorded.
\<close>

datatype outcome = Rejects js_error | Follows nat | Waits

definition load_catch :: "AsyncComponentOptions \<Rightarrow> js_error \<Rightarrow> async_state \<Rightarrow> outcome \<times> async_state"
where
  "load_catch opts err s = (case userOnError opts of
      None \<Rightarrow> (Rejects err, s)
    | Some h \<Rightarrow>
       (case h err (retries s + 1) of
          CallRetry \<Rightarrow> (case retry s of (p, s') \<Rightarrow> (Follows p, s'))
        | CallFail \<Rightarrow> (Rejects err, s)
        | CallNothing \<Rightarrow> (Waits, s)))"

definition load_then :: "nat option \<Rightarrow> async_state \<Rightarrow> async_state" where
  "load_then c s = s\<lparr>resolvedComp := c\<rparr>"

subsection \<open>One mounted instance\<close>

text \<open>
  The refs of \<open>setup\<close> and what it has scheduled: \<open>timeout_armed\<close> and \<open>delay_armed\<close>
  are the two timers (a timer fires once), \<open>settled\<close> tells whether the promise that
  \<open>setup\<close> subscribed to has settled (a promise settles once). \<open>reported\<close> lists the
  calls of \<open>handleError\<close> with their \<open>throwInDev\<close> flag, \<open>uncaught\<close> the errors
  thrown out of a timer callback or a promise handler, which nothing catches;
  \<open>parent_updates\<close> counts the \<open>queueJob\<close> calls.
\<close>

record instance_state =
  loaded_ref :: bool
  error_ref :: "js_error option"
  delayed_ref :: bool
  timeout_armed :: bool
  delay_armed :: bool
  settled :: bool
  reported :: "(js_error \<times> bool) list"
  uncaught :: "js_error list"
  parent_updates :: nat

text \<open>
  The refs as \<open>setup\<close> makes them: \<open>loaded\<close> false, \<open>error\<close> empty, \<open>delayed\<close>
  set and the delay timer started when the delay is not zero, the timeout timer started
  when a timeout is given.
\<close>

definition fresh_instance :: "AsyncComponentOptions \<Rightarrow> instance_state" where
  "fresh_instance opts = \<lparr>loaded_ref = False, error_ref = None, delayed_ref = (delay_of opts \<noteq> 0),
     timeout_armed = (timeout opts \<noteq> None), delay_armed = (delay_of opts \<noteq> 0),
     settled = False, reported = [], uncaught = [], parent_updates = 0\<rparr>"

datatype setup_result = Direct nat | Tracking instance_state

text \<open>
  \<open>setup\<close>: with the component already resolved the render function shows it at once;
  otherwise the refs are made, the timers started and \<open>load()\<close> called.
\<close>

definition async_setup :: "AsyncComponentOptions \<Rightarrow> async_state \<Rightarrow> setup_result \<times> async_state"
where
  "async_setup opts s = (case resolvedComp s of
      Some c \<Rightarrow> (Direct c, s)
    | None \<Rightarrow>
       (Tracking (fresh_instance opts), snd (load s)))"

text \<open>
  Modelled from the spec: \<open>handleError\<close> comes from errorHandling, which is not part
  of the sources at hand. The spec has an error-reporting contract
  \<open>reportError(error, instance, errorCode, allowRecovery)\<close> whose flag tells whether the
  error component suppresses a hard failure, and the call below passes
  \<open>!errorComponent\<close> with the comment: do not throw in dev if user provided error
  component. So the error is reported, and in a development build it is thrown on when
  \<open>throwInDev\<close> is set, unless an \<open>errorCaptured\<close> hook or the application's error
  handler has taken it. \<open>Inl\<close> is the error thrown.
\<close>

record error_env =
  dev_build :: bool
  error_taken :: bool

definition handleError :: "error_env \<Rightarrow> js_error \<Rightarrow> bool \<Rightarrow> js_error + unit" where
  "handleError env err throwInDev =
     (if dev_build env \<and> throwInDev \<and> \<not> error_taken env then Inl err else Inr ())"

text \<open>
  The local \<open>onError\<close> of \<open>setup\<close>: the pending request is cleared first, so it stays
  cleared when \<open>handleError\<close> throws.
\<close>

definition onError :: "error_env \<Rightarrow> AsyncComponentOptions \<Rightarrow> js_error
    \<Rightarrow> async_state \<times> instance_state \<Rightarrow> (js_error + unit) \<times> async_state \<times> instance_state" where
  "onError env opts err st = (case st of (s, i) \<Rightarrow>
     (handleError env err (errorComponent opts = None),
      s\<lparr>pendingRequest := None\<rparr>,
      i\<lparr>reported := reported i @ [(err, errorComponent opts = None)]\<rparr>))"

text \<open>
  The callbacks of the two timers. When \<open>onError\<close> throws, the assignment to \<open>error\<close>
  after it is not reached.
\<close>

definition delay_callback :: "async_state \<times> instance_state \<Rightarrow> async_state \<times> instance_state" where
  "delay_callback st = (case st of (s, i) \<Rightarrow> (s, i\<lparr>delayed_ref := False\<rparr>))"

definition timeout_callback :: "error_env \<Rightarrow> AsyncComponentOptions \<Rightarrow> nat
    \<Rightarrow> async_state \<times> instance_state \<Rightarrow> async_state \<times> instance_state" where
  "timeout_callback env opts t st = (case st of (s, i) \<Rightarrow>
     if \<not> loaded_ref i \<and> error_ref i = None then
       (case onError env opts (TimeoutError t) (s, i) of
          (Inl e, s', i') \<Rightarrow> (s', i'\<lparr>uncaught := uncaught i' @ [e]\<rparr>)
        | (Inr u, s', i') \<Rightarrow> (s', i'\<lparr>error_ref := Some (TimeoutError t)\<rparr>))
     else (s, i))"

text \<open>
  The handlers \<open>setup\<close> chains onto \<open>load()\<close>; \<open>parent_keepalive\<close> tells whether the
  instance has a parent that is a keep-alive.
\<close>

definition setup_then :: "bool \<Rightarrow> async_state \<times> instance_state \<Rightarrow> async_state \<times> instance_state"
where
  "setup_then parent_keepalive st = (case st of (s, i) \<Rightarrow>
     (s, i\<lparr>loaded_ref := True,
           parent_updates := (if parent_keepalive then Suc (parent_updates i)
                              else parent_updates i)\<rparr>))"

definition setup_catch :: "error_env \<Rightarrow> AsyncComponentOptions \<Rightarrow> js_error
    \<Rightarrow> async_state \<times> instance_state \<Rightarrow> async_state \<times> instance_state" where
  "setup_catch env opts err st = (case onError env opts err st of
     (Inl e, s', i') \<Rightarrow> (s', i'\<lparr>uncaught := uncaught i' @ [e]\<rparr>)
   | (Inr u, s', i') \<Rightarrow> (s', i'\<lparr>error_ref := Some err\<rparr>))"

subsection \<open>The render function\<close>

datatype async_view = ShowInner nat | ShowError nat js_error | ShowLoading nat | ShowNothing

definition async_render :: "AsyncComponentOptions \<Rightarrow> async_state \<times> instance_state \<Rightarrow> async_view"
where
  "async_render opts st = (case st of (s, i) \<Rightarrow>
     if loaded_ref i \<and> resolvedComp s \<noteq> None then ShowInner (the (resolvedComp s))
     else if error_ref i \<noteq> None \<and> errorComponent opts \<noteq> None
       then ShowError (the (errorComponent opts)) (the (error_ref i))
     else if loadingComponent opts \<noteq> None \<and> \<not> delayed_ref i
       then ShowLoading (the (loadingComponent opts))
     else ShowNothing)"

subsection \<open>What can happen to a mounted instance\<close>

text \<open>
  The events after \<open>setup\<close>: a timer elapses, or the promise that \<open>setup\<close> subscribed
  to settles. When it is fulfilled with a component, the handler of \<open>load\<close> has recorded
  the component just before the handler of \<open>setup\<close> runs; when it rejects, it rejects
  with the error of the failed load. A timer that has fired and a promise that has
  settled do nothing more.
\<close>

datatype event = DelayElapsed | TimeoutElapsed | Fulfilled "nat option" | Rejected string

definition step :: "error_env \<Rightarrow> AsyncComponentOptions \<Rightarrow> bool \<Rightarrow> event
    \<Rightarrow> async_state \<times> instance_state \<Rightarrow> async_state \<times> instance_state" where
  "step env opts parent_keepalive ev st = (case st of (s, i) \<Rightarrow>
     (case ev of
        DelayElapsed \<Rightarrow>
          if delay_armed i then delay_callback (s, i\<lparr>delay_armed := False\<rparr>) else st
      | TimeoutElapsed \<Rightarrow>
          (case timeout opts of
             Some t \<Rightarrow>
               if timeout_armed i then timeout_callback env opts t (s, i\<lparr>timeout_armed := False\<rparr>)
               else st
           | None \<Rightarrow> st)
      | Fulfilled c \<Rightarrow>
          if settled i then st
          else setup_then parent_keepalive (load_then c s, i\<lparr>settled := True\<rparr>)
      | Rejected msg \<Rightarrow>
          if settled i then st
          else setup_catch env opts (LoadError msg) (s, i\<lparr>settled := True\<rparr>)))"

fun run :: "error_env \<Rightarrow> AsyncComponentOptions \<Rightarrow> bool \<Rightarrow> event list
    \<Rightarrow> async_state \<times> instance_state \<Rightarrow> async_state \<times> instance_state" where
  "run env opts pk [] st = st"
| "run env opts pk (ev # evs) st = run env opts pk evs (step env opts pk ev st)"

text \<open>
  How the promise that \<open>setup\<close> subscribed to has settled within a list of events: a
  promise settles once, so the first fulfilment or rejection counts.
\<close>

fun first_settle :: "event list \<Rightarrow> event option" where
  "first_settle [] = None"
| "first_settle (Fulfilled c # evs) = Some (Fulfilled c)"
| "first_settle (Rejected m # evs) = Some (Rejected m)"
| "first_settle (DelayElapsed # evs) = first_settle evs"
| "first_settle (TimeoutElapsed # evs) = first_settle evs"

fun is_rejected :: "event option \<Rightarrow> bool" where
  "is_rejected (Some (Rejected m)) = True"
| "is_rejected e = False"

fun is_fulfilled :: "event option \<Rightarrow> bool" where
  "is_fulfilled (Some (Fulfilled c)) = True"
| "is_fulfilled e = False"

text \<open>How many timeout errors have reached \<open>handleError\<close>.\<close>

fun is_timeout_error :: "js_error \<times> bool \<Rightarrow> bool" where
  "is_timeout_error (TimeoutError t, b) = True"
| "is_timeout_error (LoadError m, b) = False"

definition timeout_count :: "async_state \<times> instance_state \<Rightarrow> nat" where
  "timeout_count st = length (filter is_timeout_error (reported (snd st)))"

text \<open>A wrapper with a three-second timeout, an error component and a loading component.\<close>

definition with_timeout :: AsyncComponentOptions where
  "with_timeout = \<lparr>loadingComponent = Some 1, errorComponent = Some 2, delay = None,
     timeout = Some 3000, userOnError = None\<rparr>"

text \<open>The same without an error component.\<close>

definition bare_timeout :: AsyncComponentOptions where
  "bare_timeout = \<lparr>loadingComponent = Some 1, errorComponent = None, delay = None,
     timeout = Some 3000, userOnError = None\<rparr>"

text \<open>A production build, and a development build in which nothing takes the error.\<close>

definition production :: error_env where
  "production = \<lparr>dev_build = False, error_taken = False\<rparr>"

definition development :: error_env where
  "development = \<lparr>dev_build = True, error_taken = False\<rparr>"

text \<open>The state of the wrapper and of its first instance right after \<open>setup\<close>.\<close>

definition mounted :: "AsyncComponentOptions \<Rightarrow> async_state \<times> instance_state" where
  "mounted opts = (snd (load async_init), fresh_instance opts)"

text \<open>
  The timeout timer and its error: at most one timeout error has been reported, and none
  while the timer is still to fire.
\<close>

definition timer_inv :: "async_state \<times> instance_state \<Rightarrow> bool" where
  "timer_inv st = (timeout_count st \<le> 1 \<and> (timeout_armed (snd st) \<longrightarrow> timeout_count st = 0))"

section \<open>Properties of the proxy layer\<close>

subsection \<open>The queries on values that are not objects\<close>

text \<open>
  C10. On \<open>null\<close>, \<open>undefined\<close> and every other primitive, \<open>isReactive\<close>,
  \<open>isReadonly\<close>, \<open>isShallow\<close> and \<open>isProxy\<close> return \<open>false\<close> and \<open>toRaw\<close>
  returns the value itself: each call returns (no \<open>None\<close>) and none throws (no
  \<open>Inl\<close>), so no property of a nullish value is read.
\<close>

theorem queries_total_on_primitives:
  "is_primitive v \<Longrightarrow>
     isReactive s v = Some (Inr False) \<and> isReadonly s v = Inr False \<and>
     isShallow s v = Inr False \<and> isProxy s v = Some (Inr False) \<and>
     toRaw s v = Some (Inr v)"
  by (cases v)
     (simp_all add: isReactive.simps toRaw.simps isProxy_def isReadonly_def isShallow_def
        and_get_def)

theorem queries_total_on_primitives_witness:
  "is_primitive JNull \<and>
     isReactive fresh_state JNull = Some (Inr False) \<and> isReadonly fresh_state JNull = Inr False \<and>
     isShallow fresh_state JNull = Inr False \<and> isProxy fresh_state JNull = Some (Inr False) \<and>
     toRaw fresh_state JNull = Some (Inr JNull)"
  using queries_total_on_primitives [of JNull fresh_state] by simp

text \<open>
  The claim's list stops at the primitives, and so does the theorem. On an object the
  two recursive queries return only when the \<open>__v_raw\<close> chain ends: for an object
  whose own \<open>__v_raw\<close> property refers back to it, \<open>toRaw\<close> has no result.
\<close>

lemma toRaw_cyclic_no_result: "toRaw cyclic_state (JRef 0) = None"
proof -
  have "\<not> (s = cyclic_state \<and> v = JRef 0)" if "toRaw s v = Some r" for s v r
  proof (rule toRaw.raw_induct[where P = "\<lambda>s v r. \<not> (s = cyclic_state \<and> v = JRef 0)", OF _ that])
    fix tr s v r
    assume IH: "\<And>s v r. tr s v = Some r \<Longrightarrow> \<not> (s = cyclic_state \<and> v = JRef 0)"
      and step: "(case and_get s v (flag RAW) of Inl e \<Rightarrow> Some (Inl e)
         | Inr raw \<Rightarrow> if truthy raw then tr s raw else Some (Inr v)) = Some r"
    show "\<not> (s = cyclic_state \<and> v = JRef 0)"
    proof
      assume c: "s = cyclic_state \<and> v = JRef 0"
      then have "and_get s v (flag RAW) = Inr (JRef 0)"
        by (simp add: and_get_def obj_get_def prop_lookup_def cyclic_state_def)
      with step have "tr s (JRef 0) = Some r" by simp
      from IH[OF this] c show False by simp
    qed
  qed
  then show ?thesis by (cases "toRaw cyclic_state (JRef 0)") auto
qed

subsection \<open>Heap and identity-map bookkeeping\<close>

lemma base_of_Plain: "h a = Plain rt c e ps \<Longrightarrow> base_of h a = a"
  by (simp add: base_of.simps)

lemma base_of_not_proxy: "(\<forall>t hs. h a \<noteq> Proxy t hs) \<Longrightarrow> base_of h a = a"
  by (cases "h a") (simp_all add: base_of.simps)

lemma base_obj_Plain: "heap s a = Plain rt c e ps \<Longrightarrow> base_obj s a = Plain rt c e ps"
  by (simp add: base_obj_def base_of_Plain)

lemma heap_map_set [simp]: "heap (map_set m a p s) = heap s"
  by (cases m) simp_all

lemma nxt_map_set [simp]: "nxt (map_set m a p s) = nxt s"
  by (cases m) simp_all

lemma map_of_state_map_set_same [simp]:
  "map_of_state m (map_set m a p s) = (a, p) # map_of_state m s"
  by (cases m) simp_all

lemma map_of_state_map_set_other:
  "m' \<noteq> m \<Longrightarrow> map_of_state m' (map_set m a p s) = map_of_state m' s"
  by (cases m; cases m') simp_all

lemma map_of_state_heap_upd [simp]:
  "map_of_state m (s\<lparr>heap := h, nxt := n\<rparr>) = map_of_state m s"
  by (cases m) simp_all

lemma map_of_state_warnings [simp]:
  "map_of_state m (s\<lparr>warnings := w\<rparr>) = map_of_state m s"
  by (cases m) simp_all

text \<open>The outcomes of \<open>createReactiveObject\<close> on an object reference.\<close>

lemma cro_ref:
  "\<exists>r s'. createReactiveObject dev s (JRef a) isRo bh ch m = Inr (r, s') \<and>
     ((r = JRef a \<and> (s' = s \<or> (dev \<and> \<not> isObject s (JRef a) \<and> s' = s\<lparr>warnings := warnings s @ [JRef a]\<rparr>)))
      \<or> (\<exists>p. r = JRef p \<and> s' = s \<and> isObject s (JRef a) \<and> map_get m s (JRef a) = Some p)
      \<or> (\<exists>tt. r = JRef (nxt s) \<and> isObject s (JRef a) \<and> map_get m s (JRef a) = None \<and>
            getTargetType s (JRef a) = Inr tt \<and> tt \<noteq> INVALID \<and>
            s' = map_set m a (nxt s)
                   (s\<lparr>heap := (heap s)(nxt s := Proxy a (if tt = COLLECTION then ch else bh)),
                      nxt := Suc (nxt s)\<rparr>)))"
  by (auto simp: createReactiveObject_def getTargetType_def new_proxy_def split: option.splits)

lemma cro_prim:
  "is_primitive v \<Longrightarrow> createReactiveObject dev s v isRo bh ch m =
      Inr (v, if dev then s\<lparr>warnings := warnings s @ [v]\<rparr> else s)"
  by (cases v) (simp_all add: createReactiveObject_def isObject_def)

lemma raw_targetD:
  assumes "raw_target s a"
  obtains rt ps where "heap s a = Plain rt False True ps" "a < nxt s"
    "targetTypeMap rt \<noteq> INVALID"
    "\<not> truthy (prop_lookup ps (flag SKIP))"
    "\<not> truthy (prop_lookup ps (flag RAW))"
    "\<not> truthy (prop_lookup ps (flag IS_READONLY))"
  using assms by (auto simp: raw_target_def split: obj.splits)

lemma cro_raw_target_miss:
  assumes "raw_target s a" "map_get m s (JRef a) = None"
  shows "\<exists>h. createReactiveObject dev s (JRef a) isRo bh ch m =
       Inr (JRef (nxt s), map_set m a (nxt s) (s\<lparr>heap := (heap s)(nxt s := Proxy a h), nxt := Suc (nxt s)\<rparr>))
       \<and> (h = bh \<or> h = ch)"
proof -
  from assms(1) obtain rt ps where h: "heap s a = Plain rt False True ps" "a < nxt s"
    "targetTypeMap rt \<noteq> INVALID"
    "\<not> truthy (prop_lookup ps (flag SKIP))"
    "\<not> truthy (prop_lookup ps (flag RAW))"
    by (rule raw_targetD)
  show ?thesis
    using h assms(2)
    by (auto simp: createReactiveObject_def getTargetType_def new_proxy_def isObject_def
        base_obj_Plain obj_get_def isExtensible_def)
qed

lemma cro_raw_target_hit:
  assumes "raw_target s a" "map_get m s (JRef a) = Some p"
  shows "createReactiveObject dev s (JRef a) isRo bh ch m = Inr (JRef p, s)"
proof -
  from assms(1) obtain rt ps where h: "heap s a = Plain rt False True ps" "a < nxt s"
    "\<not> truthy (prop_lookup ps (flag RAW))"
    by (rule raw_targetD)
  show ?thesis
    using h assms(2)
    by (auto simp: createReactiveObject_def isObject_def base_obj_Plain obj_get_def)
qed

lemma raw_target_alloc:
  assumes "raw_target s a"
  shows "raw_target (map_set m b (nxt s) (s\<lparr>heap := (heap s)(nxt s := ob), nxt := Suc (nxt s)\<rparr>)) a"
  using assms by (auto simp: raw_target_def)

lemma isReadonly_raw_target: "raw_target s a \<Longrightarrow> isReadonly s (JRef a) = Inr False"
  by (erule raw_targetD) (simp add: isReadonly_def and_get_def obj_get_def)

lemma wrap_raw_target:
  assumes "raw_target s a"
  shows "wrap dev k s (JRef a) =
     createReactiveObject dev s (JRef a) (kind_readonly k)
       (map_base_handlers (kind_map k)) (map_collection_handlers (kind_map k)) (kind_map k)"
  using isReadonly_raw_target[OF assms]
  by (cases k) (simp_all add: reactive_def shallowReactive_def readonly_def shallowReadonly_def)


lemma wrap_prim:
  "is_primitive v \<Longrightarrow> wrap dev k s v =
      Inr (v, if dev then s\<lparr>warnings := warnings s @ [v]\<rparr> else s)"
  by (cases k; cases v)
     (simp_all add: reactive_def shallowReactive_def readonly_def shallowReadonly_def
        cro_prim isReadonly_def and_get_def)

lemma wrap_ref:
  "\<exists>r s'. wrap dev k s (JRef a) = Inr (r, s') \<and>
     ((r = JRef a \<and> (s' = s \<or> (dev \<and> \<not> isObject s (JRef a) \<and> s' = s\<lparr>warnings := warnings s @ [JRef a]\<rparr>)))
      \<or> (\<exists>p. r = JRef p \<and> s' = s \<and> isObject s (JRef a) \<and> map_get (kind_map k) s (JRef a) = Some p)
      \<or> (\<exists>tt h. r = JRef (nxt s) \<and> isObject s (JRef a) \<and> map_get (kind_map k) s (JRef a) = None \<and>
            getTargetType s (JRef a) = Inr tt \<and> tt \<noteq> INVALID \<and>
            h \<in> {map_base_handlers (kind_map k), map_collection_handlers (kind_map k)} \<and>
            s' = map_set (kind_map k) a (nxt s)
                   (s\<lparr>heap := (heap s)(nxt s := Proxy a h), nxt := Suc (nxt s)\<rparr>)))"
proof -
  have cro: "\<exists>r s'. createReactiveObject dev s (JRef a) (kind_readonly k)
       (map_base_handlers (kind_map k)) (map_collection_handlers (kind_map k)) (kind_map k) = Inr (r, s') \<and>
     ((r = JRef a \<and> (s' = s \<or> (dev \<and> \<not> isObject s (JRef a) \<and> s' = s\<lparr>warnings := warnings s @ [JRef a]\<rparr>)))
      \<or> (\<exists>p. r = JRef p \<and> s' = s \<and> isObject s (JRef a) \<and> map_get (kind_map k) s (JRef a) = Some p)
      \<or> (\<exists>tt h. r = JRef (nxt s) \<and> isObject s (JRef a) \<and> map_get (kind_map k) s (JRef a) = None \<and>
            getTargetType s (JRef a) = Inr tt \<and> tt \<noteq> INVALID \<and>
            h \<in> {map_base_handlers (kind_map k), map_collection_handlers (kind_map k)} \<and>
            s' = map_set (kind_map k) a (nxt s)
                   (s\<lparr>heap := (heap s)(nxt s := Proxy a h), nxt := Suc (nxt s)\<rparr>)))"
    using cro_ref[of dev s a "kind_readonly k" "map_base_handlers (kind_map k)"
        "map_collection_handlers (kind_map k)" "kind_map k"]
    by (elim exE conjE disjE) (simp, simp, simp, auto)
  show ?thesis
  proof (cases k)
    case KReactive
    show ?thesis
    proof (cases "isReadonly s (JRef a) = Inr True")
      case True
      then show ?thesis using KReactive by (simp add: reactive_def)
    next
      case False
      then have "isReadonly s (JRef a) = Inr False"
        by (simp add: isReadonly_def and_get_def)
      then show ?thesis using cro KReactive by (simp add: reactive_def)
    qed
  next
    case KShallowReactive
    then show ?thesis using cro by (simp add: shallowReactive_def)
  next
    case KReadonly
    then show ?thesis using cro by (simp add: readonly_def)
  next
    case KShallowReadonly
    then show ?thesis using cro by (simp add: shallowReadonly_def)
  qed
qed

lemma maps_ok_map: "maps_ok s \<Longrightarrow> map_ok m s"
  by (cases m) (simp_all add: maps_ok_def)

lemma maps_ok_get:
  assumes "maps_ok s" "map_get m s (JRef a) = Some p"
  shows "a < p \<and> p < nxt s \<and>
     (heap s p = Proxy a (map_base_handlers m) \<or> heap s p = Proxy a (map_collection_handlers m))"
proof -
  from assms(2) have "(a, p) \<in> set (map_of_state m s)"
    by (simp add: map_get_def map_of_SomeD)
  moreover have "list_all (entry_ok m s) (map_of_state m s)"
    using maps_ok_map[OF assms(1)] by (simp add: map_ok_def)
  ultimately have "entry_ok m s (a, p)" by (simp add: list_all_iff)
  then show ?thesis by (simp add: entry_ok_def)
qed

lemma toRaw_unwrapped:
  assumes "unwrapped s x"
  shows "toRaw s x = Some (Inr x)"
proof (cases x)
  case (JRef a)
  with assms show ?thesis
    by (auto simp: unwrapped_def toRaw.simps and_get_def obj_get_def split: obj.splits)
qed (simp_all add: toRaw.simps and_get_def)

lemma toRaw_proxy:
  "heap s p = Proxy a h \<Longrightarrow> toRaw s (JRef p) = toRaw s (JRef a)"
  by (subst toRaw.simps) (simp add: and_get_def obj_get_def handler_get_def)

lemma unwrapped_warn: "unwrapped (s\<lparr>warnings := w\<rparr>) x = unwrapped s x"
  by (cases x) (simp_all add: unwrapped_def)

lemma unwrapped_alloc:
  "unwrapped s x \<Longrightarrow>
   unwrapped (map_set m b (nxt s) (s\<lparr>heap := (heap s)(nxt s := ob), nxt := Suc (nxt s)\<rparr>)) x"
  by (auto simp: unwrapped_def split: jsval.splits)


subsection \<open>Wrapping keeps the identity maps well formed\<close>

lemma entry_ok_alloc:
  "entry_ok m' s ap \<Longrightarrow>
   entry_ok m' (map_set m b (nxt s) (s\<lparr>heap := (heap s)(nxt s := ob), nxt := Suc (nxt s)\<rparr>)) ap"
  by (cases ap) (auto simp: entry_ok_def)

lemma map_ok_alloc_other:
  assumes "map_ok m' s" "m' \<noteq> m"
  shows "map_ok m' (map_set m b (nxt s) (s\<lparr>heap := (heap s)(nxt s := ob), nxt := Suc (nxt s)\<rparr>))"
  using assms by (auto simp: map_ok_def list_all_iff map_of_state_map_set_other intro: entry_ok_alloc)

lemma map_ok_alloc_same:
  assumes "map_ok m s" "b < nxt s" "h \<in> {map_base_handlers m, map_collection_handlers m}"
  shows "map_ok m (map_set m b (nxt s) (s\<lparr>heap := (heap s)(nxt s := Proxy b h), nxt := Suc (nxt s)\<rparr>))"
proof -
  have "entry_ok m (map_set m b (nxt s) (s\<lparr>heap := (heap s)(nxt s := Proxy b h), nxt := Suc (nxt s)\<rparr>)) (b, nxt s)"
    using assms(2,3) by (auto simp: entry_ok_def)
  then show ?thesis
    using assms(1) by (auto simp: map_ok_def list_all_iff intro: entry_ok_alloc)
qed

lemma maps_ok_alloc:
  assumes "maps_ok s" "b < nxt s" "h \<in> {map_base_handlers m, map_collection_handlers m}"
  shows "maps_ok (map_set m b (nxt s) (s\<lparr>heap := (heap s)(nxt s := Proxy b h), nxt := Suc (nxt s)\<rparr>))"
  unfolding maps_ok_def
  using maps_ok_map[OF assms(1)] map_ok_alloc_same[OF _ assms(2,3)]
    map_ok_alloc_other[of _ s m b "Proxy b h"]
  by (cases m) simp_all

lemma entry_ok_warn: "entry_ok m (s\<lparr>warnings := w\<rparr>) = entry_ok m s"
  by (rule ext) (simp add: entry_ok_def split: prod.splits)

lemma maps_ok_warn: "maps_ok (s\<lparr>warnings := w\<rparr>) = maps_ok s"
  by (simp add: maps_ok_def map_ok_def entry_ok_warn)

lemma wrap_maps_ok:
  assumes "maps_ok s" "wrap dev k s x = Inr (r, s')" "\<forall>a. x = JRef a \<longrightarrow> a < nxt s"
  shows "maps_ok s'"
proof (cases "is_primitive x")
  case True
  with assms show ?thesis by (auto simp: wrap_prim maps_ok_warn split: if_splits)
next
  case False
  then obtain a where x: "x = JRef a" by (cases x) simp_all
  then have a: "a < nxt s" using assms(3) by simp
  from wrap_ref[of dev k s a] assms(2) x
  consider "s' = s" | "s' = s\<lparr>warnings := warnings s @ [JRef a]\<rparr>"
    | h where "h \<in> {map_base_handlers (kind_map k), map_collection_handlers (kind_map k)}"
        "s' = map_set (kind_map k) a (nxt s)
                   (s\<lparr>heap := (heap s)(nxt s := Proxy a h), nxt := Suc (nxt s)\<rparr>)"
    by (elim exE conjE disjE) simp_all
  then show ?thesis
  proof cases
    case 1
    then show ?thesis using assms(1) by simp
  next
    case 2
    then show ?thesis using assms(1) by (simp add: maps_ok_warn)
  next
    case 3
    then show ?thesis using maps_ok_alloc[OF assms(1) a 3(1)] by simp
  qed
qed

subsection \<open>Wrapping a raw target\<close>

text \<open>
  C6. Wrapping a raw target (structured, extensible, not skip-flagged, of an allowed
  type) twice with the same kind returns the identical proxy: after the first wrap the
  kind's identity map holds that proxy for the target, and the second wrap returns it
  and leaves the state as it is. With well-formed identity maps the result is a proxy
  over the target.
\<close>

theorem wrap_twice_identical:
  assumes "raw_target s a"
  shows "\<exists>p s1. wrap dev k s (JRef a) = Inr (JRef p, s1) \<and>
           map_get (kind_map k) s1 (JRef a) = Some p \<and>
           wrap dev k s1 (JRef a) = Inr (JRef p, s1) \<and>
           (maps_ok s \<longrightarrow> (\<exists>h. heap s1 p = Proxy a h))"
proof (cases "map_get (kind_map k) s (JRef a)")
  case None
  let ?m = "kind_map k"
  from cro_raw_target_miss[OF assms None, of dev "kind_readonly k" "map_base_handlers ?m" "map_collection_handlers ?m"]
  obtain h where 1: "wrap dev k s (JRef a) = Inr (JRef (nxt s),
      map_set ?m a (nxt s) (s\<lparr>heap := (heap s)(nxt s := Proxy a h), nxt := Suc (nxt s)\<rparr>))"
    by (auto simp: wrap_raw_target[OF assms])
  let ?s1 = "map_set ?m a (nxt s) (s\<lparr>heap := (heap s)(nxt s := Proxy a h), nxt := Suc (nxt s)\<rparr>)"
  have rt: "raw_target ?s1 a" using assms by (rule raw_target_alloc)
  have hit: "map_get ?m ?s1 (JRef a) = Some (nxt s)" by (simp add: map_get_def)
  have 2: "wrap dev k ?s1 (JRef a) = Inr (JRef (nxt s), ?s1)"
    by (simp add: wrap_raw_target[OF rt] cro_raw_target_hit[OF rt hit])
  have 3: "heap ?s1 (nxt s) = Proxy a h" by simp
  from 1 hit 2 3 show ?thesis by blast
next
  case (Some p)
  have "\<exists>h. heap s p = Proxy a h" if "maps_ok s"
    using maps_ok_get[OF that Some] by blast
  with Some show ?thesis
    by (simp add: wrap_raw_target[OF assms] cro_raw_target_hit[OF assms Some])
qed

lemma raw_target_fresh: "raw_target fresh_state 0"
  by (simp add: raw_target_def fresh_state_def targetTypeMap_def prop_lookup_def)

lemma maps_ok_fresh: "maps_ok fresh_state"
  by (simp add: maps_ok_def map_ok_def fresh_state_def)

theorem wrap_twice_identical_witness:
  "raw_target fresh_state 0 \<and> maps_ok fresh_state \<and>
   (\<exists>p s1. wrap True KReadonly fresh_state (JRef 0) = Inr (JRef p, s1) \<and>
           map_get (kind_map KReadonly) s1 (JRef 0) = Some p \<and>
           wrap True KReadonly s1 (JRef 0) = Inr (JRef p, s1) \<and>
           (\<exists>h. heap s1 p = Proxy 0 h))"
  using wrap_twice_identical [of fresh_state 0 True KReadonly] raw_target_fresh maps_ok_fresh
  by simp

text \<open>
  C7. For every unwrapped value \<open>x\<close> (a primitive, or an object that is not itself a
  proxy) and every wrap kind, \<open>toRaw\<close> of the wrapped value returns, and returns \<open>x\<close>:
  it follows the raw back-reference of the proxy once and stops at \<open>x\<close>, which carries
  none.
\<close>

theorem toRaw_wrap_roundtrip:
  assumes "maps_ok s" "unwrapped s x"
  shows "\<exists>r s1. wrap dev k s x = Inr (r, s1) \<and> toRaw s1 r = Some (Inr x)"
proof (cases "is_primitive x")
  case True
  then have "toRaw (if dev then s\<lparr>warnings := warnings s @ [x]\<rparr> else s) x = Some (Inr x)"
    by (cases x) (simp_all add: toRaw.simps and_get_def)
  with True show ?thesis by (simp add: wrap_prim)
next
  case False
  then obtain a where x: "x = JRef a" by (cases x) simp_all
  from wrap_ref[of dev k s a] obtain r s' where w: "wrap dev k s (JRef a) = Inr (r, s')"
    and c: "(r = JRef a \<and> (s' = s \<or> (dev \<and> \<not> isObject s (JRef a) \<and> s' = s\<lparr>warnings := warnings s @ [JRef a]\<rparr>)))
      \<or> (\<exists>p. r = JRef p \<and> s' = s \<and> isObject s (JRef a) \<and> map_get (kind_map k) s (JRef a) = Some p)
      \<or> (\<exists>tt h. r = JRef (nxt s) \<and> isObject s (JRef a) \<and> map_get (kind_map k) s (JRef a) = None \<and>
            getTargetType s (JRef a) = Inr tt \<and> tt \<noteq> INVALID \<and>
            h \<in> {map_base_handlers (kind_map k), map_collection_handlers (kind_map k)} \<and>
            s' = map_set (kind_map k) a (nxt s)
                   (s\<lparr>heap := (heap s)(nxt s := Proxy a h), nxt := Suc (nxt s)\<rparr>))"
    by blast
  from c have "toRaw s' r = Some (Inr (JRef a))"
  proof (elim disjE conjE exE)
    assume "r = JRef a" "s' = s"
    then show ?thesis using assms(2) x by (simp add: toRaw_unwrapped)
  next
    assume "r = JRef a" "s' = s\<lparr>warnings := warnings s @ [JRef a]\<rparr>"
    then show ?thesis using assms(2) x by (simp add: toRaw_unwrapped unwrapped_warn)
  next
    fix p assume p: "r = JRef p" "s' = s" "map_get (kind_map k) s (JRef a) = Some p"
    from maps_ok_get[OF assms(1) p(3)] obtain h where "heap s p = Proxy a h" by blast
    then show ?thesis using p assms(2) x by (simp add: toRaw_proxy toRaw_unwrapped)
  next
    fix tt h
    assume n: "r = JRef (nxt s)"
      "s' = map_set (kind_map k) a (nxt s)
                   (s\<lparr>heap := (heap s)(nxt s := Proxy a h), nxt := Suc (nxt s)\<rparr>)"
    have "heap s' (nxt s) = Proxy a h" using n by simp
    moreover have "unwrapped s' (JRef a)" using assms(2) x n by (simp add: unwrapped_alloc)
    ultimately show ?thesis using n(1) by (simp add: toRaw_proxy toRaw_unwrapped)
  qed
  with w x show ?thesis by simp
qed

lemma unwrapped_fresh: "unwrapped fresh_state (JRef 0)"
  by (simp add: unwrapped_def fresh_state_def prop_lookup_def)

theorem toRaw_wrap_roundtrip_witness:
  "maps_ok fresh_state \<and> unwrapped fresh_state (JRef 0) \<and>
   (\<exists>r s1. wrap True KShallowReactive fresh_state (JRef 0) = Inr (r, s1) \<and>
           toRaw s1 r = Some (Inr (JRef 0)))"
  using toRaw_wrap_roundtrip [of fresh_state "JRef 0" True KShallowReactive]
    maps_ok_fresh unwrapped_fresh by simp

text \<open>
  When the value to wrap is itself a proxy, \<open>toRaw\<close> of the result goes on to the
  object underneath: \<open>readonly\<close> of the reactive proxy at address 1 is a new proxy at
  address 2, and \<open>toRaw\<close> of that is the object at address 0.
\<close>

lemma rewrapped_proxy:
  "wrap True KReadonly wrapped_state (JRef 1) =
     Inr (JRef 2, wrapped_state\<lparr>heap := (heap wrapped_state)(2 := Proxy 1 readonlyHandlers),
            nxt := 3, readonlyMap := [(1, 2)]\<rparr>) \<and>
   toRaw (wrapped_state\<lparr>heap := (heap wrapped_state)(2 := Proxy 1 readonlyHandlers),
            nxt := 3, readonlyMap := [(1, 2)]\<rparr>) (JRef 2) = Some (Inr (JRef 0))"
proof -
  have b: "base_of (heap wrapped_state) 1 = 0"
    by (subst base_of.simps) (simp add: wrapped_state_def fresh_state_def base_of_not_proxy)
  have w: "wrap True KReadonly wrapped_state (JRef 1) =
     Inr (JRef 2, wrapped_state\<lparr>heap := (heap wrapped_state)(2 := Proxy 1 readonlyHandlers),
            nxt := 3, readonlyMap := [(1, 2)]\<rparr>)"
    using b
    by (simp add: readonly_def createReactiveObject_def isObject_def base_obj_def
        obj_get_def handler_get_def map_get_def getTargetType_def isExtensible_def
        targetTypeMap_def new_proxy_def prop_lookup_def wrapped_state_def fresh_state_def)
  have t: "toRaw (wrapped_state\<lparr>heap := (heap wrapped_state)(2 := Proxy 1 readonlyHandlers),
            nxt := 3, readonlyMap := [(1, 2)]\<rparr>) (JRef 2) = Some (Inr (JRef 0))"
    by (simp add: toRaw.simps and_get_def obj_get_def handler_get_def prop_lookup_def
        wrapped_state_def fresh_state_def)
  from w t show ?thesis by simp
qed

subsection \<open>Readonly proxies and the mutable-reactive wrap\<close>

lemma kind_readonly_handlers:
  "kind_readonly k \<Longrightarrow>
   h \<in> {map_base_handlers (kind_map k), map_collection_handlers (kind_map k)} \<Longrightarrow>
   handlers_readonly h"
  by (cases k) auto

lemma isReadonly_proxy:
  "heap s p = Proxy a h \<Longrightarrow> isReadonly s (JRef p) = Inr (handlers_readonly h)"
  by (simp add: isReadonly_def and_get_def obj_get_def handler_get_def)


lemma reactive_readonly_proxy:
  "heap s p = Proxy a h \<Longrightarrow> handlers_readonly h \<Longrightarrow> reactive dev s (JRef p) = Inr (JRef p, s)"
  by (simp add: reactive_def isReadonly_proxy)

text \<open>
  C4. \<open>reactive\<close> of a readonly proxy (deep or shallow, whatever it wraps) returns
  that very proxy and leaves the state unchanged, and \<open>isReadonly\<close> of it is true. In
  particular, for every raw target, the result of a readonly wrap is a readonly proxy
  over it, and \<open>reactive\<close> of that result is the result itself.
\<close>

theorem reactive_of_readonly_proxy:
  "(heap s r = Proxy t hr \<and> handlers_readonly hr \<longrightarrow>
      reactive dev s (JRef r) = Inr (JRef r, s) \<and> isReadonly s (JRef r) = Inr True) \<and>
   (maps_ok s0 \<and> raw_target s0 a \<and> kind_readonly k \<longrightarrow>
      (\<exists>p h s1. wrap dev k s0 (JRef a) = Inr (JRef p, s1) \<and>
           heap s1 p = Proxy a h \<and> handlers_readonly h \<and>
           reactive dev s1 (JRef p) = Inr (JRef p, s1) \<and>
           isReadonly s1 (JRef p) = Inr True))"
proof (intro conjI impI)
  assume "heap s r = Proxy t hr \<and> handlers_readonly hr"
  then show "reactive dev s (JRef r) = Inr (JRef r, s)" "isReadonly s (JRef r) = Inr True"
    by (simp_all add: reactive_readonly_proxy isReadonly_proxy)
next
  assume a: "maps_ok s0 \<and> raw_target s0 a \<and> kind_readonly k"
  then have mo: "maps_ok s0" and rt: "raw_target s0 a" and kr: "kind_readonly k" by simp_all
  let ?m = "kind_map k"
  have "\<exists>p h s1. wrap dev k s0 (JRef a) = Inr (JRef p, s1) \<and> heap s1 p = Proxy a h \<and>
          h \<in> {map_base_handlers ?m, map_collection_handlers ?m}"
  proof (cases "map_get ?m s0 (JRef a)")
    case None
    from cro_raw_target_miss[OF rt None, of dev "kind_readonly k"
        "map_base_handlers ?m" "map_collection_handlers ?m"]
    show ?thesis by (auto simp: wrap_raw_target[OF rt])
  next
    case (Some p)
    from maps_ok_get[OF mo Some] Some show ?thesis
      by (auto simp: wrap_raw_target[OF rt] cro_raw_target_hit[OF rt Some])
  qed
  then obtain p h s1 where w: "wrap dev k s0 (JRef a) = Inr (JRef p, s1)"
    and hp: "heap s1 p = Proxy a h"
    and hh: "h \<in> {map_base_handlers ?m, map_collection_handlers ?m}" by blast
  have ro: "handlers_readonly h" using kr hh by (rule kind_readonly_handlers)
  have ir: "isReadonly s1 (JRef p) = Inr True" using hp ro by (simp add: isReadonly_proxy)
  have "reactive dev s1 (JRef p) = Inr (JRef p, s1)" using hp ro by (rule reactive_readonly_proxy)
  with w hp ro ir
  show "\<exists>p h s1. wrap dev k s0 (JRef a) = Inr (JRef p, s1) \<and>
           heap s1 p = Proxy a h \<and> handlers_readonly h \<and>
           reactive dev s1 (JRef p) = Inr (JRef p, s1) \<and>
           isReadonly s1 (JRef p) = Inr True"
    by blast
qed

theorem reactive_of_readonly_proxy_witness:
  "heap wrapped_state 1 = Proxy 0 mutableHandlers \<and>
   heap (wrapped_state\<lparr>heap := (heap wrapped_state)(2 := Proxy 1 readonlyHandlers)\<rparr>) 2 =
     Proxy 1 readonlyHandlers \<and>
   handlers_readonly readonlyHandlers \<and>
   reactive True (wrapped_state\<lparr>heap := (heap wrapped_state)(2 := Proxy 1 readonlyHandlers)\<rparr>)
       (JRef 2) =
     Inr (JRef 2, wrapped_state\<lparr>heap := (heap wrapped_state)(2 := Proxy 1 readonlyHandlers)\<rparr>) \<and>
   maps_ok fresh_state \<and> raw_target fresh_state 0 \<and> kind_readonly KReadonly \<and>
   (\<exists>p h s1. wrap True KReadonly fresh_state (JRef 0) = Inr (JRef p, s1) \<and>
           heap s1 p = Proxy 0 h \<and> handlers_readonly h \<and>
           reactive True s1 (JRef p) = Inr (JRef p, s1) \<and>
           isReadonly s1 (JRef p) = Inr True)"
proof -
  have h1: "heap wrapped_state 1 = Proxy 0 mutableHandlers"
    by (simp add: wrapped_state_def)
  have h2: "heap (wrapped_state\<lparr>heap := (heap wrapped_state)(2 := Proxy 1 readonlyHandlers)\<rparr>) 2 =
     Proxy 1 readonlyHandlers \<and> handlers_readonly readonlyHandlers"
    by simp
  have k: "maps_ok fresh_state \<and> raw_target fresh_state 0 \<and> kind_readonly KReadonly"
    using maps_ok_fresh raw_target_fresh by simp
  from reactive_of_readonly_proxy
    [of "wrapped_state\<lparr>heap := (heap wrapped_state)(2 := Proxy 1 readonlyHandlers)\<rparr>" 2 1
       readonlyHandlers True fresh_state 0 KReadonly] h1 h2 k
  show ?thesis by blast
qed

subsection \<open>Values that are not wrapped\<close>

lemma entry_ok_heap_plain:
  assumes "entry_ok m s ap" "heap s b = Plain rt c e ps"
  shows "entry_ok m (s\<lparr>heap := (heap s)(b := ob)\<rparr>) ap"
  using assms by (cases ap) (auto simp: entry_ok_def)

lemma map_of_state_heap_only [simp]:
  "map_of_state m (s\<lparr>heap := h\<rparr>) = map_of_state m s"
  by (cases m) simp_all

lemma markRaw_maps_ok:
  assumes "maps_ok s" "markRaw s v = Inr (r, s')"
  shows "maps_ok s' \<and> r = v"
proof -
  from assms(2) obtain a rt c e ps where
    v: "v = JRef a" and
    b: "heap s (base_of (heap s) a) = Plain rt c e ps" and
    s': "s' = s\<lparr>heap := (heap s)(base_of (heap s) a := Plain rt c e ((flag SKIP, JBool True) # ps))\<rparr>"
    and r: "r = v"
    by (auto simp: markRaw_def def_prop_def Let_def split: jsval.splits obj.splits if_splits)
  have "map_ok m s'" for m
    using maps_ok_map[OF assms(1), of m] entry_ok_heap_plain[OF _ b]
    unfolding s' map_ok_def list_all_iff by simp
  then show ?thesis using r by (simp add: maps_ok_def)
qed

lemma fresh_reactive: "reactive True fresh_state (JRef 0) = Inr (JRef 1, wrapped_state)"
  by (simp add: reactive_def isReadonly_def and_get_def obj_get_def createReactiveObject_def
      isObject_def base_obj_def base_of_not_proxy getTargetType_def isExtensible_def
      targetTypeMap_def new_proxy_def map_get_def prop_lookup_def
      fresh_state_def wrapped_state_def)

lemma wrapped_markRaw: "markRaw wrapped_state (JRef 0) = Inr (JRef 0, marked_state)"
  by (simp add: markRaw_def def_prop_def base_of_not_proxy fresh_state_def wrapped_state_def
      marked_state_def)

lemma marked_invalid: "getTargetType marked_state (JRef 0) = Inr INVALID"
  by (simp add: getTargetType_def obj_get_def prop_lookup_def fresh_state_def wrapped_state_def
      marked_state_def)

lemma marked_reactive: "wrap True KReactive marked_state (JRef 0) = Inr (JRef 1, marked_state)"
  by (simp add: reactive_def isReadonly_def and_get_def obj_get_def createReactiveObject_def
      isObject_def base_obj_def base_of_not_proxy map_get_def prop_lookup_def
      fresh_state_def wrapped_state_def marked_state_def)


text \<open>
  C8, as the claim states it, fails: an object that was wrapped while still valid and
  then skip-flagged by \<open>markRaw\<close> is an invalid target, yet \<open>reactive\<close> still
  returns the proxy cached for it (address 1), not the object itself (address 0).
\<close>

theorem wrap_invalid_cached_counterexample:
  "reactive True fresh_state (JRef 0) = Inr (JRef 1, wrapped_state) \<and>
   markRaw wrapped_state (JRef 0) = Inr (JRef 0, marked_state) \<and>
   getTargetType marked_state (JRef 0) = Inr INVALID \<and>
   wrap True KReactive marked_state (JRef 0) = Inr (JRef 1, marked_state)"
  by (simp only: fresh_reactive wrapped_markRaw marked_invalid marked_reactive simp_thms)

text \<open>
  C8, amended. For every non-structured value and every invalid target, the wrap
  returns without throwing and constructs no proxy: heap and allocation pointer are
  unchanged and the state is the same up to one warning, logged only in a development
  build and only for a non-structured value (always so for a primitive). The value
  comes back unchanged whenever the kind's identity map holds no proxy for it; when
  the map holds one, the result is the value or that cached proxy.
\<close>

theorem wrap_invalid_passthrough:
  assumes "\<not> isObject s x \<or> getTargetType s x = Inr INVALID"
  shows "\<exists>r s1. wrap dev k s x = Inr (r, s1) \<and>
    heap s1 = heap s \<and> nxt s1 = nxt s \<and>
    (s1 = s \<or> (dev \<and> \<not> isObject s x \<and> s1 = s\<lparr>warnings := warnings s @ [x]\<rparr>)) \<and>
    (is_primitive x \<longrightarrow> s1 = (if dev then s\<lparr>warnings := warnings s @ [x]\<rparr> else s)) \<and>
    (case map_get (kind_map k) s x of None \<Rightarrow> r = x | Some p \<Rightarrow> r = x \<or> r = JRef p)"
proof (cases "is_primitive x")
  case True
  then have "\<not> isObject s x" "map_get (kind_map k) s x = None"
    by (cases x; simp add: isObject_def map_get_def)+
  with True show ?thesis by (auto simp: wrap_prim)
next
  case False
  then obtain a where x: "x = JRef a" by (cases x) simp_all
  from wrap_ref[of dev k s a] assms x show ?thesis
    by (elim exE conjE disjE) (auto split: option.splits)
qed

theorem wrap_invalid_passthrough_witness:
  "\<not> isObject fresh_state (JStr ''a'') \<and>
   (\<exists>r s1. wrap True KReadonly fresh_state (JStr ''a'') = Inr (r, s1) \<and>
    heap s1 = heap fresh_state \<and> nxt s1 = nxt fresh_state \<and>
    (s1 = fresh_state \<or> (True \<and> \<not> isObject fresh_state (JStr ''a'') \<and>
        s1 = fresh_state\<lparr>warnings := warnings fresh_state @ [JStr ''a'']\<rparr>)) \<and>
    (is_primitive (JStr ''a'') \<longrightarrow>
        s1 = (if True then fresh_state\<lparr>warnings := warnings fresh_state @ [JStr ''a'']\<rparr>
              else fresh_state)) \<and>
    (case map_get (kind_map KReadonly) fresh_state (JStr ''a'') of
       None \<Rightarrow> r = JStr ''a'' | Some p \<Rightarrow> r = JStr ''a'' \<or> r = JRef p))"
proof (rule conjI)
  show n: "\<not> isObject fresh_state (JStr ''a'')"
    by (simp add: isObject_def)
  then have h: "\<not> isObject fresh_state (JStr ''a'') \<or>
      getTargetType fresh_state (JStr ''a'') = Inr INVALID" ..
  show "\<exists>r s1. wrap True KReadonly fresh_state (JStr ''a'') = Inr (r, s1) \<and>
    heap s1 = heap fresh_state \<and> nxt s1 = nxt fresh_state \<and>
    (s1 = fresh_state \<or> (True \<and> \<not> isObject fresh_state (JStr ''a'') \<and>
        s1 = fresh_state\<lparr>warnings := warnings fresh_state @ [JStr ''a'']\<rparr>)) \<and>
    (is_primitive (JStr ''a'') \<longrightarrow>
        s1 = (if True then fresh_state\<lparr>warnings := warnings fresh_state @ [JStr ''a'']\<rparr>
              else fresh_state)) \<and>
    (case map_get (kind_map KReadonly) fresh_state (JStr ''a'') of
       None \<Rightarrow> r = JStr ''a'' | Some p \<Rightarrow> r = JStr ''a'' \<or> r = JRef p)"
    by (rule wrap_invalid_passthrough [OF h])
qed

section \<open>Properties of the keep-alive cache\<close>

subsection \<open>Keys and cache as sets\<close>

lemma dom_cache_set [simp]: "fst ` set (cache_set k v c) = insert k (fst ` set c)"
  by (auto simp: cache_set_def image_iff split: if_splits prod.splits) force+

lemma dom_cache_delete [simp]: "fst ` set (cache_delete k c) = fst ` set c - {k}"
  by (auto simp: cache_delete_def image_iff)

lemma set_keys_add [simp]: "set (keys_add k ks) = insert k (set ks)"
  by (auto simp: keys_add_def)

lemma set_keys_delete [simp]: "set (keys_delete k ks) = set ks - {k}"
  by (auto simp: keys_delete_def)

lemma pruneCacheEntry_Inr:
  assumes "pruneCacheEntry s k = Inr s'"
  shows "keys s' = keys_delete k (keys s) \<and> cache s' = cache_delete k (cache s) \<and>
         pendingCacheKey s' = pendingCacheKey s \<and> (\<exists>v. map_of (cache s) k = Some (Some v))"
  using assms
  by (auto simp: pruneCacheEntry_def unmount_def Let_def split: option.splits if_splits)

lemma pruneCacheEntry_ok:
  assumes "map_of (cache s) k = Some (Some v)"
  shows "\<exists>s'. pruneCacheEntry s k = Inr s'"
  using assms by (simp add: pruneCacheEntry_def Let_def)

lemma pruneCacheEntry_agree:
  "agree s \<Longrightarrow> pruneCacheEntry s k = Inr s' \<Longrightarrow> agree s'"
  by (drule pruneCacheEntry_Inr) (simp add: agree_def)

lemma pruneCache_loop_agree:
  "agree s \<Longrightarrow> pruneCache_loop flt es s = Inr s' \<Longrightarrow> agree s'"
proof (induction flt es s rule: pruneCache_loop.induct)
  case (3 flt key vnode rest s)
  then show ?case
    by (auto simp: Let_def split: if_splits sum.splits dest: pruneCacheEntry_agree)
qed simp_all

lemma on_patterns_change_agree:
  "agree s \<Longrightarrow> on_patterns_change inc exc s = Inr s' \<Longrightarrow> agree s'"
  by (auto simp: on_patterns_change_def pruneCache_def split: if_splits sum.splits
      dest: pruneCache_loop_agree)

lemma keep_and_return_Inr:
  "keep_and_return v s = Inr (res, s') \<Longrightarrow>
     keys s' = keys s \<and> cache s' = cache s \<and> pendingCacheKey s' = pendingCacheKey s"
  by (auto simp: keep_and_return_def Let_def)

lemma render_cached_sets:
  assumes "render_cached props vn s = Inr (res, s')"
  shows "pendingCacheKey s' = Some (cache_key_of vn) \<and>
     ((set (keys s') = insert (cache_key_of vn) (set (keys s)) \<and> cache s' = cache s) \<or>
      (\<exists>old. old \<noteq> cache_key_of vn \<and>
         set (keys s') = insert (cache_key_of vn) (set (keys s)) - {old} \<and>
         cache s' = cache_delete old (cache s)))"
proof -
  let ?key = "cache_key_of vn"
  show ?thesis
  proof (cases "\<exists>cached. map_of (cache s) ?key = Some (Some cached)")
    case True
    then obtain cached where c: "map_of (cache s) ?key = Some (Some cached)" by blast
    from assms c show ?thesis
      by (auto simp: render_cached_def Let_def dest!: keep_and_return_Inr)
  next
    case False
    let ?s1 = "s\<lparr>pendingCacheKey := Some ?key, keys := keys_add ?key (keys s)\<rparr>"
    show ?thesis
    proof (cases "max_truthy (max_p props) \<and>
        size_exceeds (length (keys_add ?key (keys s))) (parseInt (max_p props))")
      case noprune: False
      from False have "render_cached props vn s = keep_and_return vn ?s1"
        using noprune by (auto simp: render_cached_def Let_def split: option.splits)
      with assms show ?thesis by (auto dest!: keep_and_return_Inr)
    next
      case prune: True
      from False prune have rc: "render_cached props vn s =
          (case keys_add ?key (keys s) of [] \<Rightarrow> Inl TypeError
           | oldest # rest \<Rightarrow> (case pruneCacheEntry ?s1 oldest of Inl e \<Rightarrow> Inl e
               | Inr s2 \<Rightarrow> keep_and_return vn s2))"
        by (auto simp: render_cached_def Let_def split: option.splits)
      from assms rc obtain oldest rest s2 where
        k: "keys_add ?key (keys s) = oldest # rest" and
        p: "pruneCacheEntry ?s1 oldest = Inr s2" and
        r: "keep_and_return vn s2 = Inr (res, s')"
        by (auto split: list.splits sum.splits)
      from pruneCacheEntry_Inr[OF p] have s2: "keys s2 = keys_delete oldest (keys_add ?key (keys s))"
        "cache s2 = cache_delete oldest (cache s)" "pendingCacheKey s2 = Some ?key"
        and ex: "\<exists>v. map_of (cache s) oldest = Some (Some v)" by auto
      from ex False have ne: "oldest \<noteq> ?key" by auto
      from keep_and_return_Inr[OF r] s2 have
        "pendingCacheKey s' = Some ?key" "cache s' = cache_delete oldest (cache s)"
        "set (keys s') = insert ?key (set (keys s)) - {oldest}" by auto
      with ne show ?thesis by blast
    qed
  qed
qed

lemma render_cached_between:
  assumes "agree s" "render_cached props vn s = Inr (res, s')"
  shows "fst ` set (cache s') \<subseteq> set (keys s') \<and>
         set (keys s') \<subseteq> insert (cache_key_of vn) (fst ` set (cache s')) \<and>
         pendingCacheKey s' = Some (cache_key_of vn) \<and> cache_key_of vn \<in> set (keys s')"
  using render_cached_sets[OF assms(2)] assms(1)
  by (elim conjE disjE exE) (auto simp: agree_def)

lemma render_other:
  assumes "render dev props slot s = Inr (res, s')"
  shows "(\<exists>vn. render_cached props vn (s\<lparr>pendingCacheKey := None\<rparr>) = Inr (res, s')) \<or>
         (keys s' = keys s \<and> cache s' = cache s \<and> pendingCacheKey s' = None)"
  using assms
  by (auto simp: render_def Let_def split: option.splits if_splits list.splits child.splits)

lemma render_between:
  assumes "agree s" "render dev props slot s = Inr (res, s')"
  shows "fst ` set (cache s') \<subseteq> set (keys s') \<and>
         set (keys s') \<subseteq> fst ` set (cache s') \<union> set_option (pendingCacheKey s') \<and>
         set_option (pendingCacheKey s') \<subseteq> set (keys s')"
proof -
  have a0: "agree (s\<lparr>pendingCacheKey := None\<rparr>)" using assms(1) by (simp add: agree_def)
  from render_other[OF assms(2)] show ?thesis
  proof
    assume "\<exists>vn. render_cached props vn (s\<lparr>pendingCacheKey := None\<rparr>) = Inr (res, s')"
    then obtain vn where "render_cached props vn (s\<lparr>pendingCacheKey := None\<rparr>) = Inr (res, s')" ..
    from render_cached_between[OF a0 this] show ?thesis by auto
  next
    assume "keys s' = keys s \<and> cache s' = cache s \<and> pendingCacheKey s' = None"
    then show ?thesis using assms(1) by (simp add: agree_def)
  qed
qed

lemma cacheSubtree_agree:
  assumes "fst ` set (cache s) \<subseteq> set (keys s)"
    "set (keys s) \<subseteq> fst ` set (cache s) \<union> set_option (pendingCacheKey s)"
    "set_option (pendingCacheKey s) \<subseteq> set (keys s)"
  shows "agree (cacheSubtree s sub)"
  using assms by (auto simp: cacheSubtree_def agree_def split: option.splits)

subsection \<open>Keys and cache in order\<close>

lemma map_fst_cache_set:
  "map fst (cache_set k v c) = (if k \<in> fst ` set c then map fst c else map fst c @ [k])"
  by (auto simp: cache_set_def split: prod.splits)

lemma distinct_cache_set: "distinct (map fst c) \<Longrightarrow> distinct (map fst (cache_set k v c))"
  by (simp add: map_fst_cache_set)

lemma distinct_cache_delete: "distinct (map fst c) \<Longrightarrow> distinct (map fst (cache_delete k c))"
  by (simp add: cache_delete_def distinct_map_filter)

lemma nonnull_cache_set:
  "cache_nonnull c \<Longrightarrow> cache_nonnull (cache_set k (Some v) c)"
  by (auto simp: cache_nonnull_def cache_set_def list_all_iff split: prod.splits)

lemma nonnull_cache_delete:
  "cache_nonnull c \<Longrightarrow> cache_nonnull (cache_delete k c)"
  by (auto simp: cache_nonnull_def cache_delete_def list_all_iff)

lemma ka_inv_lookup_in:
  assumes "ka_inv s" "k \<in> set (keys s)"
  shows "\<exists>v. map_of (cache s) k = Some (Some v)"
proof -
  from assms have "k \<in> fst ` set (cache s)" by (simp add: ka_inv_def)
  then obtain v where kv: "(k, v) \<in> set (cache s)" by force
  with assms(1) have "v \<noteq> None" by (auto simp: ka_inv_def cache_nonnull_def list_all_iff)
  moreover from assms(1) kv have "map_of (cache s) k = Some v" by (simp add: ka_inv_def)
  ultimately show ?thesis by auto
qed

lemma ka_inv_lookup_out:
  assumes "ka_inv s" "k \<notin> set (keys s)"
  shows "map_of (cache s) k = None"
  using assms by (simp add: ka_inv_def map_of_eq_None_iff)

lemma ka_inv_length: "ka_inv s \<Longrightarrow> length (cache s) = length (keys s)"
proof -
  assume a: "ka_inv s"
  then have "length (cache s) = card (fst ` set (cache s))"
    by (metis ka_inv_def distinct_card length_map set_map)
  also have "\<dots> = length (keys s)" using a by (metis ka_inv_def distinct_card)
  finally show ?thesis .
qed

lemma render_single:
  assumes "STATEFUL_COMPONENT \<in> shapeFlag raw \<or> SUSPENSE \<in> shapeFlag raw"
    "getInnerChild raw = Some vn"
  shows "render dev props (Some [Node raw]) s =
     (if ineligible props vn
      then Inr (RRaw (Some (Node raw)), s\<lparr>pendingCacheKey := None, current := Some vn\<rparr>)
      else render_cached props vn (s\<lparr>pendingCacheKey := None\<rparr>))"
  using assms by (auto simp: render_def Let_def)

lemma keep_and_return_eq:
  "keep_and_return v s =
     Inr (RVNode (set_shapeFlag (insert COMPONENT_SHOULD_KEEP_ALIVE (shapeFlag v)) v),
          s\<lparr>current := Some (set_shapeFlag (insert COMPONENT_SHOULD_KEEP_ALIVE (shapeFlag v)) v)\<rparr>)"
  by (simp add: keep_and_return_def Let_def)

lemma shapeFlag_set_shapeFlag [simp]: "shapeFlag (set_shapeFlag f v) = f"
  by (cases v) simp

lemma shapeFlag_set_mounted [simp]: "shapeFlag (set_mounted e c v) = shapeFlag v"
  by (cases v) simp

lemma removeAll_hd_append:
  assumes "distinct ks" "ks \<noteq> []" "k \<notin> set ks"
  shows "removeAll (hd ks) (ks @ [k]) = tl ks @ [k]"
proof -
  from assms(2) obtain x xs where ks: "ks = x # xs" by (cases ks) auto
  with assms have "x \<notin> set xs" "x \<noteq> k" by auto
  then show ?thesis using ks by (simp add: removeAll_id)
qed

text \<open>The three outcomes of an eligible render.\<close>

lemma render_cached_hit:
  assumes "ka_inv s" "cache_key_of vn \<in> set (keys s)"
  shows "\<exists>v s'. render_cached props vn s = Inr (RVNode v, s') \<and>
     COMPONENT_KEPT_ALIVE \<in> shapeFlag v \<and>
     keys s' = removeAll (cache_key_of vn) (keys s) @ [cache_key_of vn] \<and>
     cache s' = cache s \<and> pendingCacheKey s' = Some (cache_key_of vn)"
proof -
  from ka_inv_lookup_in[OF assms] obtain c where
    "map_of (cache s) (cache_key_of vn) = Some (Some c)" ..
  then show ?thesis
    by (simp add: render_cached_def Let_def keep_and_return_eq keys_add_def keys_delete_def)
qed

lemma render_cached_miss_room:
  assumes "ka_inv s" "cache_key_of vn \<notin> set (keys s)"
    "\<not> (max_truthy (max_p props) \<and> size_exceeds (Suc (length (keys s))) (parseInt (max_p props)))"
  shows "\<exists>v s'. render_cached props vn s = Inr (RVNode v, s') \<and>
     shapeFlag v = insert COMPONENT_SHOULD_KEEP_ALIVE (shapeFlag vn) \<and>
     keys s' = keys s @ [cache_key_of vn] \<and>
     cache s' = cache s \<and> pendingCacheKey s' = Some (cache_key_of vn)"
  using ka_inv_lookup_out[OF assms(1,2)] assms(2,3)
  by (auto simp: render_cached_def Let_def keep_and_return_eq keys_add_def)

lemma render_cached_miss_evict:
  assumes "ka_inv s" "cache_key_of vn \<notin> set (keys s)" "keys s \<noteq> []"
    "max_truthy (max_p props)" "size_exceeds (Suc (length (keys s))) (parseInt (max_p props))"
  shows "\<exists>v s'. render_cached props vn s = Inr (RVNode v, s') \<and>
     shapeFlag v = insert COMPONENT_SHOULD_KEEP_ALIVE (shapeFlag vn) \<and>
     keys s' = tl (keys s) @ [cache_key_of vn] \<and>
     cache s' = cache_delete (hd (keys s)) (cache s) \<and>
     pendingCacheKey s' = Some (cache_key_of vn)"
proof -
  let ?key = "cache_key_of vn"
  let ?s1 = "s\<lparr>pendingCacheKey := Some ?key, keys := keys s @ [?key]\<rparr>"
  from assms(3) obtain x xs where ks: "keys s = x # xs" by (cases "keys s") auto
  have "hd (keys s) \<in> set (keys s)" using assms(3) by simp
  from ka_inv_lookup_in[OF assms(1) this] obtain c where
    c: "map_of (cache s) (hd (keys s)) = Some (Some c)" ..
  then obtain s2 where p: "pruneCacheEntry ?s1 (hd (keys s)) = Inr s2"
    using pruneCacheEntry_ok[of ?s1 "hd (keys s)" c] by auto
  from pruneCacheEntry_Inr[OF p] have s2: "keys s2 = removeAll (hd (keys s)) (keys s @ [?key])"
    "cache s2 = cache_delete (hd (keys s)) (cache s)" "pendingCacheKey s2 = Some ?key"
    by (auto simp: keys_delete_def)
  have d: "distinct (keys s)" using assms(1) by (simp add: ka_inv_def)
  have rc: "render_cached props vn s = keep_and_return vn s2"
    using ka_inv_lookup_out[OF assms(1,2)] assms(2,4,5) p ks
    by (simp add: render_cached_def Let_def keys_add_def)
  show ?thesis
    using s2 removeAll_hd_append[OF d assms(3,2)]
    by (simp add: rc keep_and_return_eq)
qed

subsection \<open>Three children and a bound of two, evaluated\<close>

lemmas scenario_defs = show_child_def render_def render_cached_def keep_and_return_def
  cacheSubtree_def cache_set_def cache_delete_def keys_add_def keys_delete_def
  pruneCacheEntry_def unmount_def resetShapeFlag_def getInnerChild_def ineligible_def
  render_name_def cache_key_of_def size_exceeds_def patched_def kept_def
  comp_named_def fresh_node_def max2_def nodeA_def nodeB_def nodeC_def ka_init_def
  shown_AB_def shown_ABC_def Let_def

lemmas more_defs = show_child_prune_def on_patterns_change_def pruneCache_def
  max3_def max1_def max0_def max1_Foo_def nodeD_def nodeW_def nodeFoo_def asyncFoo_def

lemma scenario_AB: "show_all dev max2 [(nodeA, 10), (nodeB, 20)] ka_init = Inr shown_AB"
  by (simp add: scenario_defs insert_commute)

lemma scenario_C: "show_all dev max2 [(nodeC, 30)] shown_AB = Inr shown_ABC"
  by (simp add: scenario_defs insert_commute)

lemma scenario_B_hit:
  "map_option shapeFlag (rendered_node (render dev max2 (Some [Node nodeB]) shown_ABC)) =
     Some {COMPONENT_SHOULD_KEEP_ALIVE, COMPONENT_KEPT_ALIVE, STATEFUL_COMPONENT}"
  "map_option el (rendered_node (render dev max2 (Some [Node nodeB]) shown_ABC)) = Some (Some 20)"
  by (simp_all add: scenario_defs insert_commute)

lemma scenario_A_miss:
  "map_option shapeFlag (rendered_node (render dev max2 (Some [Node nodeA]) shown_ABC)) =
     Some {COMPONENT_SHOULD_KEEP_ALIVE, STATEFUL_COMPONENT}"
  "map_option el (rendered_node (render dev max2 (Some [Node nodeA]) shown_ABC)) = Some None"
  by (simp_all add: scenario_defs insert_commute)

subsection \<open>Least-recently-used eviction\<close>

lemma ka_inv_after_hook:
  assumes "distinct (keys s')" "distinct (map fst (cache s'))"
    "cache_nonnull (cache s')"
    "fst ` set (cache s') \<subseteq> set (keys s')"
    "set (keys s') \<subseteq> insert k (fst ` set (cache s'))"
    "pendingCacheKey s' = Some k" "k \<in> set (keys s')"
    "getInnerChild sub = Some inner"
  shows "ka_inv (cacheSubtree s' sub) \<and> keys (cacheSubtree s' sub) = keys s'"
  using assms
  by (auto simp: ka_inv_def cacheSubtree_def distinct_cache_set nonnull_cache_set)

lemma lru_render:
  assumes inv: "ka_inv s"
    and mx: "max_truthy (max_p props)" "parseInt (max_p props) = Some m" "1 \<le> m"
    and bound: "int (length (keys s)) \<le> m"
    and child: "STATEFUL_COMPONENT \<in> shapeFlag raw \<or> SUSPENSE \<in> shapeFlag raw"
      "getInnerChild raw = Some vn" "\<not> ineligible props vn"
  shows "\<exists>v s'. render dev props (Some [Node raw]) s = Inr (RVNode v, s') \<and>
     (if cache_key_of vn \<in> set (keys s) then
        COMPONENT_KEPT_ALIVE \<in> shapeFlag v \<and>
        keys s' = removeAll (cache_key_of vn) (keys s) @ [cache_key_of vn] \<and>
        cache s' = cache s
      else if int (length (keys s)) + 1 > m then
        keys s \<noteq> [] \<and>
        keys s' = tl (keys s) @ [cache_key_of vn] \<and>
        cache s' = cache_delete (hd (keys s)) (cache s)
      else
        keys s' = keys s @ [cache_key_of vn] \<and> cache s' = cache s) \<and>
     int (length (keys s')) \<le> m \<and>
     (\<forall>sub inner. getInnerChild sub = Some inner \<longrightarrow>
        ka_inv (cacheSubtree s' sub) \<and> keys (cacheSubtree s' sub) = keys s' \<and>
        int (length (cache (cacheSubtree s' sub))) \<le> m)"
proof -
  let ?key = "cache_key_of vn"
  let ?s0 = "s\<lparr>pendingCacheKey := None\<rparr>"
  have inv0: "ka_inv ?s0" using inv by (simp add: ka_inv_def)
  have r: "render dev props (Some [Node raw]) s = render_cached props vn ?s0"
    using child by (simp add: render_single)
  have d: "distinct (keys s)" "distinct (map fst (cache s))"
    "cache_nonnull (cache s)" "set (keys s) = fst ` set (cache s)"
    using inv by (simp_all add: ka_inv_def)
  have hook: "\<forall>sub inner. getInnerChild sub = Some inner \<longrightarrow>
        ka_inv (cacheSubtree s' sub) \<and> keys (cacheSubtree s' sub) = keys s' \<and>
        int (length (cache (cacheSubtree s' sub))) \<le> m"
    if a: "distinct (keys s')" "distinct (map fst (cache s'))"
      "cache_nonnull (cache s')"
      "fst ` set (cache s') \<subseteq> set (keys s')"
      "set (keys s') \<subseteq> insert ?key (fst ` set (cache s'))"
      "pendingCacheKey s' = Some ?key" "?key \<in> set (keys s')"
      and b: "int (length (keys s')) \<le> m" for s'
  proof (intro allI impI)
    fix sub inner assume g: "getInnerChild sub = Some inner"
    from ka_inv_after_hook[OF a g] have i: "ka_inv (cacheSubtree s' sub)"
      and k: "keys (cacheSubtree s' sub) = keys s'" by simp_all
    from ka_inv_length[OF i] k b
    show "ka_inv (cacheSubtree s' sub) \<and> keys (cacheSubtree s' sub) = keys s' \<and>
        int (length (cache (cacheSubtree s' sub))) \<le> m"
      using i by simp
  qed
  show ?thesis
  proof (cases "?key \<in> set (keys s)")
    case True
    from render_cached_hit[OF inv0, of vn props] True obtain v s' where
      rc: "render_cached props vn ?s0 = Inr (RVNode v, s')" and
      f: "COMPONENT_KEPT_ALIVE \<in> shapeFlag v" and
      k: "keys s' = removeAll ?key (keys s) @ [?key]" and
      c: "cache s' = cache s" and p: "pendingCacheKey s' = Some ?key"
      by auto
    have len: "length (keys s') = length (keys s)"
      using k True d(1) by (simp add: distinct_remove1_removeAll[symmetric] length_remove1)
        (cases "keys s", auto)
    have "distinct (keys s')" using k d(1) by (simp add: distinct_removeAll)
    moreover have "set (keys s') = set (keys s)" using k True by auto
    ultimately have "\<forall>sub inner. getInnerChild sub = Some inner \<longrightarrow>
        ka_inv (cacheSubtree s' sub) \<and> keys (cacheSubtree s' sub) = keys s' \<and>
        int (length (cache (cacheSubtree s' sub))) \<le> m"
      using hook[of s'] d c p True len bound by auto
    with rc f k c True len bound show ?thesis by (auto simp: r)
  next
    case False
    show ?thesis
    proof (cases "int (length (keys s)) + 1 > m")
      case room: False
      then have nx: "\<not> (max_truthy (max_p props) \<and>
          size_exceeds (Suc (length (keys ?s0))) (parseInt (max_p props)))"
        using mx by (simp add: size_exceeds_def)
      from render_cached_miss_room[OF inv0 _ nx, of vn] False obtain v s' where
        rc: "render_cached props vn ?s0 = Inr (RVNode v, s')" and
        k: "keys s' = keys s @ [?key]" and
        c: "cache s' = cache s" and p: "pendingCacheKey s' = Some ?key"
        by auto
      have b': "int (length (keys s')) \<le> m" using k room by simp
      have "\<forall>sub inner. getInnerChild sub = Some inner \<longrightarrow>
        ka_inv (cacheSubtree s' sub) \<and> keys (cacheSubtree s' sub) = keys s' \<and>
        int (length (cache (cacheSubtree s' sub))) \<le> m"
        using hook[of s'] d c p k False b' by auto
      with rc k c False room b' show ?thesis by (auto simp: r)
    next
      case full: True
      then have ne: "keys s \<noteq> []" using mx(3) by auto
      have ex: "size_exceeds (Suc (length (keys ?s0))) (parseInt (max_p props))"
        using mx full by (simp add: size_exceeds_def)
      from render_cached_miss_evict[OF inv0 _ _ mx(1) ex, of vn] False ne obtain v s' where
        rc: "render_cached props vn ?s0 = Inr (RVNode v, s')" and
        k: "keys s' = tl (keys s) @ [?key]" and
        c: "cache s' = cache_delete (hd (keys s)) (cache s)" and
        p: "pendingCacheKey s' = Some ?key"
        by auto
      from ne obtain x xs where ks: "keys s = x # xs" by (cases "keys s") auto
      have b': "int (length (keys s')) \<le> m" using k ks bound by simp
      have dk: "distinct (keys s')" using k ks d(1) False by auto
      have sub1: "fst ` set (cache s') \<subseteq> set (keys s')"
        using c k ks d(1,4) by auto
      have sub2: "set (keys s') \<subseteq> insert ?key (fst ` set (cache s'))"
        using c k ks d(1,4) by auto
      have "\<forall>sub inner. getInnerChild sub = Some inner \<longrightarrow>
        ka_inv (cacheSubtree s' sub) \<and> keys (cacheSubtree s' sub) = keys s' \<and>
        int (length (cache (cacheSubtree s' sub))) \<le> m"
        using hook[of s', OF dk _ _ sub1 sub2 p _ b'] d c k
        by (simp add: distinct_cache_delete nonnull_cache_delete)
      with rc k c False full b' ne show ?thesis by (auto simp: r)
    qed
  qed
qed

subsection \<open>Hit and miss from any state\<close>

lemma el_set_shapeFlag [simp]: "el (set_shapeFlag f v) = el v"
  by (cases v) simp

lemma component_set_shapeFlag [simp]: "component (set_shapeFlag f v) = component v"
  by (cases v) simp

lemma el_set_mounted [simp]: "el (set_mounted e c v) = e"
  by (cases v) simp

lemma component_set_mounted [simp]: "component (set_mounted e c v) = c"
  by (cases v) simp

lemma render_hit:
  assumes "STATEFUL_COMPONENT \<in> shapeFlag raw \<or> SUSPENSE \<in> shapeFlag raw"
    "getInnerChild raw = Some vn" "\<not> ineligible props vn"
    "map_of (cache s) (cache_key_of vn) = Some (Some c)"
  shows "\<exists>v s'. render dev props (Some [Node raw]) s = Inr (RVNode v, s') \<and>
     COMPONENT_KEPT_ALIVE \<in> shapeFlag v \<and> el v = el c \<and> component v = component c \<and>
     keys s' = removeAll (cache_key_of vn) (keys s) @ [cache_key_of vn] \<and>
     cache s' = cache s"
  using assms
  by (simp add: render_single render_cached_def Let_def keep_and_return_eq keys_add_def
      keys_delete_def)

lemma render_miss:
  assumes "STATEFUL_COMPONENT \<in> shapeFlag raw \<or> SUSPENSE \<in> shapeFlag raw"
    "getInnerChild raw = Some vn" "\<not> ineligible props vn"
    "\<forall>c. map_of (cache s) (cache_key_of vn) \<noteq> Some (Some c)"
  shows "if max_truthy (max_p props) \<and>
        size_exceeds (length (keys_add (cache_key_of vn) (keys s))) (parseInt (max_p props))
     then (case map_of (cache s) (hd (keys_add (cache_key_of vn) (keys s))) of
         Some (Some old) \<Rightarrow>
           (\<exists>v s'. render dev props (Some [Node raw]) s = Inr (RVNode v, s') \<and>
              shapeFlag v = insert COMPONENT_SHOULD_KEEP_ALIVE (shapeFlag vn) \<and>
              keys s' = removeAll (hd (keys_add (cache_key_of vn) (keys s)))
                          (keys_add (cache_key_of vn) (keys s)) \<and>
              cache s' = cache_delete (hd (keys_add (cache_key_of vn) (keys s))) (cache s))
       | _ \<Rightarrow> render dev props (Some [Node raw]) s = Inl TypeError)
     else (\<exists>v s'. render dev props (Some [Node raw]) s = Inr (RVNode v, s') \<and>
        shapeFlag v = insert COMPONENT_SHOULD_KEEP_ALIVE (shapeFlag vn) \<and>
        keys s' = keys_add (cache_key_of vn) (keys s) \<and> cache s' = cache s)"
proof -
  let ?key = "cache_key_of vn"
  let ?ks = "keys_add ?key (keys s)"
  let ?s1 = "s\<lparr>pendingCacheKey := Some ?key, keys := ?ks\<rparr>"
  have ne: "?ks \<noteq> []" by (auto simp: keys_add_def)
  then obtain oldest rest where ks: "?ks = oldest # rest" by (cases ?ks) auto
  have r: "render dev props (Some [Node raw]) s =
     (if max_truthy (max_p props) \<and> size_exceeds (length ?ks) (parseInt (max_p props))
      then (case pruneCacheEntry ?s1 oldest of
              Inl e \<Rightarrow> Inl e
            | Inr s2 \<Rightarrow> keep_and_return vn s2)
      else keep_and_return vn ?s1)"
    using assms ks
    by (auto simp: render_single render_cached_def Let_def split: option.splits)
  show ?thesis
  proof (cases "max_truthy (max_p props) \<and> size_exceeds (length ?ks) (parseInt (max_p props))")
    case False
    have rr: "render dev props (Some [Node raw]) s = keep_and_return vn ?s1"
      unfolding r if_not_P[OF False] ..
    show ?thesis
      unfolding if_not_P[OF False] by (simp add: rr keep_and_return_eq)
  next
    case True
    have rr: "render dev props (Some [Node raw]) s =
        (case pruneCacheEntry ?s1 oldest of
              Inl e \<Rightarrow> Inl e
            | Inr s2 \<Rightarrow> keep_and_return vn s2)"
      unfolding r if_P[OF True] ..
    have hd: "hd ?ks = oldest" by (simp add: ks)
    show ?thesis
      unfolding if_P[OF True] hd
    proof (cases "\<exists>old. map_of (cache s) oldest = Some (Some old)")
      case ex: True
      then obtain old where old: "map_of (cache s) oldest = Some (Some old)" ..
      then obtain s2 where p: "pruneCacheEntry ?s1 oldest = Inr s2"
        using pruneCacheEntry_ok[of ?s1 oldest old] by auto
      from pruneCacheEntry_Inr[OF p] have
        "keys s2 = removeAll oldest ?ks" "cache s2 = cache_delete oldest (cache s)"
        by (simp_all add: keys_delete_def)
      with old p show "case map_of (cache s) oldest of
         Some (Some old) \<Rightarrow>
           (\<exists>v s'. render dev props (Some [Node raw]) s = Inr (RVNode v, s') \<and>
              shapeFlag v = insert COMPONENT_SHOULD_KEEP_ALIVE (shapeFlag vn) \<and>
              keys s' = removeAll oldest ?ks \<and>
              cache s' = cache_delete oldest (cache s))
       | _ \<Rightarrow> render dev props (Some [Node raw]) s = Inl TypeError"
        by (simp add: rr keep_and_return_eq)
    next
      case nex: False
      then have "pruneCacheEntry ?s1 oldest = Inl TypeError"
        by (auto simp: pruneCacheEntry_def split: option.splits)
      with nex show "case map_of (cache s) oldest of
         Some (Some old) \<Rightarrow>
           (\<exists>v s'. render dev props (Some [Node raw]) s = Inr (RVNode v, s') \<and>
              shapeFlag v = insert COMPONENT_SHOULD_KEEP_ALIVE (shapeFlag vn) \<and>
              keys s' = removeAll oldest ?ks \<and>
              cache s' = cache_delete oldest (cache s))
       | _ \<Rightarrow> render dev props (Some [Node raw]) s = Inl TypeError"
        by (auto simp: rr split: option.splits)
    qed
  qed
qed

subsection \<open>Renders that are each followed by their hook\<close>

lemma render_flags:
  assumes "render dev props (Some [Node raw]) s = Inr (RVNode v, s')" "plain_child raw"
  shows "SUSPENSE \<notin> shapeFlag v"
  using assms
  by (auto simp: render_def render_cached_def keep_and_return_eq getInnerChild_def plain_child_def
      Let_def split: if_splits option.splits list.splits sum.splits)

lemma show_child_inv:
  assumes inv: "ka_inv s"
    and mx: "max_truthy (max_p props)" "parseInt (max_p props) = Some m" "1 \<le> m"
    and bound: "int (length (keys s)) \<le> m"
    and child: "plain_child v"
  shows "\<exists>res s'. show_child dev props v n s = Inr (res, s') \<and> ka_inv s' \<and>
     int (length (keys s')) \<le> m"
proof -
  from child have st: "STATEFUL_COMPONENT \<in> shapeFlag v \<or> SUSPENSE \<in> shapeFlag v"
    and g: "getInnerChild v = Some v"
    by (simp_all add: plain_child_def getInnerChild_def)
  show ?thesis
  proof (cases "ineligible props v")
    case True
    have "ka_inv (s\<lparr>pendingCacheKey := None, current := Some v\<rparr>)"
      using inv by (simp add: ka_inv_def)
    with True bound show ?thesis
      by (simp add: show_child_def render_single[OF st g])
  next
    case False
    from lru_render[OF inv mx bound st g False, of dev] obtain v' s1 where
      r: "render dev props (Some [Node v]) s = Inr (RVNode v', s1)" and
      b: "int (length (keys s1)) \<le> m" and
      h: "\<forall>sub inner. getInnerChild sub = Some inner \<longrightarrow>
        ka_inv (cacheSubtree s1 sub) \<and> keys (cacheSubtree s1 sub) = keys s1 \<and>
        int (length (cache (cacheSubtree s1 sub))) \<le> m"
      by blast
    from render_flags[OF r child] have "getInnerChild (patched n v') = Some (patched n v')"
      by (simp add: getInnerChild_def patched_def)
    with h have "ka_inv (cacheSubtree s1 (patched n v'))"
      "keys (cacheSubtree s1 (patched n v')) = keys s1" by blast+
    with b show ?thesis by (simp add: show_child_def r)
  qed
qed

lemma show_all_inv:
  assumes mx: "max_truthy (max_p props)" "parseInt (max_p props) = Some m" "1 \<le> m"
  shows "ka_inv s \<Longrightarrow> int (length (keys s)) \<le> m \<Longrightarrow> list_all (\<lambda>x. plain_child (fst x)) vs \<Longrightarrow>
     \<exists>s'. show_all dev props vs s = Inr s' \<and> ka_inv s' \<and> int (length (keys s')) \<le> m \<and>
       int (length (cache s')) \<le> m"
proof (induction vs arbitrary: s)
  case Nil
  then show ?case using ka_inv_length[of s] by simp
next
  case (Cons x vs)
  obtain v n where x: "x = (v, n)" by (cases x)
  with Cons.prems have pc: "plain_child v" by simp
  from show_child_inv[OF Cons.prems(1) mx Cons.prems(2) pc, of dev n] obtain res s1 where
    sc: "show_child dev props v n s = Inr (res, s1)" and i: "ka_inv s1"
    and b: "int (length (keys s1)) \<le> m" by blast
  from Cons.IH[OF i b] Cons.prems(3) show ?case by (simp add: x sc)
qed

lemma ka_inv_init: "ka_inv ka_init"
  by (simp add: ka_inv_def ka_init_def cache_nonnull_def)

text \<open>
  C1, as the claim states it, fails in its last part and in the eviction. (1) The bound
  is read at each render and only a miss evicts, one key at a time: after A, B, C were
  shown under a bound of three, a render of D under a bound of one leaves three keys
  and three cached nodes. (2) When \<open>max\<close> is the string \<open>0\<close>, which is truthy and
  parses to 0, the first miss finds the key set too large and evicts its first key,
  the one just added, for which the cache holds no node: the render throws. (3) With a
  bound of one throughout: an async wrapper is cached, then \<open>include\<close> becomes \<open>Foo\<close>,
  the name of its resolved component. The render is a hit; the watcher then prunes the
  entry, since the wrapper's own name does not match, and the hook caches the node
  again, now without a key in \<open>keys\<close>. The next miss sees one key only and evicts
  nothing: the cache ends with two nodes.
\<close>

theorem cache_exceeds_max_counterexample:
  "keys_of (and_then (show_all True max3 [(nodeA, 10), (nodeB, 20), (nodeC, 30)] ka_init)
             (show_all True max1 [(nodeD, 40)])) = Some [CComp 2, CComp 3, CComp 7] \<and>
   cached_of (and_then (show_all True max3 [(nodeA, 10), (nodeB, 20), (nodeC, 30)] ka_init)
             (show_all True max1 [(nodeD, 40)])) = Some [CComp 2, CComp 3, CComp 7] \<and>
   parseInt (max_p max1) = Some 1 \<and>
   max_truthy (max_p max0) \<and> parseInt (max_p max0) = Some 0 \<and>
   render True max0 (Some [Node nodeA]) ka_init = Inl TypeError \<and>
   keys_of (and_then (show_all True max1 [(nodeW, 10)] ka_init)
             (show_child_prune True max1_Foo nodeW 10)) = Some [] \<and>
   cached_of (and_then (show_all True max1 [(nodeW, 10)] ka_init)
             (show_child_prune True max1_Foo nodeW 10)) = Some [CComp 5] \<and>
   keys_of (and_then (and_then (show_all True max1 [(nodeW, 10)] ka_init)
             (show_child_prune True max1_Foo nodeW 10))
             (show_all True max1_Foo [(nodeFoo, 20)])) = Some [CComp 6] \<and>
   cached_of (and_then (and_then (show_all True max1 [(nodeW, 10)] ka_init)
             (show_child_prune True max1_Foo nodeW 10))
             (show_all True max1_Foo [(nodeFoo, 20)])) = Some [CComp 5, CComp 6] \<and>
   parseInt (max_p max1_Foo) = Some 1"
proof -
  have a: "and_then (show_all True max3 [(nodeA, 10), (nodeB, 20), (nodeC, 30)] ka_init)
             (show_all True max1 [(nodeD, 40)]) = Inr s \<Longrightarrow>
      keys s = [CComp 2, CComp 3, CComp 7] \<and> map fst (cache s) = [CComp 2, CComp 3, CComp 7]"
    for s
    by (auto simp: scenario_defs more_defs insert_commute)
  have a': "\<not> isl (and_then (show_all True max3 [(nodeA, 10), (nodeB, 20), (nodeC, 30)] ka_init)
             (show_all True max1 [(nodeD, 40)]))"
    by (simp add: scenario_defs more_defs insert_commute)
  have b: "render True max0 (Some [Node nodeA]) ka_init = Inl TypeError"
    by (simp add: scenario_defs more_defs)
  have c: "and_then (show_all True max1 [(nodeW, 10)] ka_init)
             (show_child_prune True max1_Foo nodeW 10) = Inr s \<Longrightarrow>
      keys s = [] \<and> map fst (cache s) = [CComp 5]" for s
    by (auto simp: scenario_defs more_defs insert_commute)
  have c': "\<not> isl (and_then (show_all True max1 [(nodeW, 10)] ka_init)
             (show_child_prune True max1_Foo nodeW 10))"
    by (simp add: scenario_defs more_defs insert_commute)
  have d: "and_then (and_then (show_all True max1 [(nodeW, 10)] ka_init)
             (show_child_prune True max1_Foo nodeW 10))
             (show_all True max1_Foo [(nodeFoo, 20)]) = Inr s \<Longrightarrow>
      keys s = [CComp 6] \<and> map fst (cache s) = [CComp 5, CComp 6]" for s
    by (auto simp: scenario_defs more_defs insert_commute)
  have d': "\<not> isl (and_then (and_then (show_all True max1 [(nodeW, 10)] ka_init)
             (show_child_prune True max1_Foo nodeW 10))
             (show_all True max1_Foo [(nodeFoo, 20)]))"
    by (simp add: scenario_defs more_defs insert_commute)
  have k: "\<not> isl r \<Longrightarrow> (\<And>s. r = Inr s \<Longrightarrow> keys s = ks \<and> map fst (cache s) = cs) \<Longrightarrow>
      keys_of r = Some ks \<and> cached_of r = Some cs" for r ks cs
    by (cases r) simp_all
  from k[OF a' a] k[OF c' c] k[OF d' d] b show ?thesis
    by (simp add: max1_def max0_def max1_Foo_def)
qed

text \<open>
  C1, amended. On a render of a cache-eligible child: a hit (the cache holds a node
  under the child's key) returns a node flagged kept-alive that carries the element and
  the instance of the cached one, moves the key to the end of \<open>keys\<close> (delete, then
  add) and leaves the cache as it is. A miss adds the key to \<open>keys\<close>; if \<open>max\<close> is
  truthy and the size of \<open>keys\<close> then exceeds \<open>parseInt(max, 10)\<close>, exactly the first
  key of \<open>keys\<close> is removed from \<open>keys\<close> and from the cache, or the render throws when
  the cache holds no node under that first key; otherwise nothing is removed. From a
  state as a hook leaves it, with at most \<open>m\<close> keys for a bound \<open>m\<close> of at least one,
  the hit is the case of a key in \<open>keys\<close>, the eviction removes the head of \<open>keys\<close>,
  and neither the key set nor, after the hook that follows, the cache exceeds \<open>m\<close>.
  So over any renders of plain children from the start, each followed by its hook and
  all under the same props with a bound \<open>m\<close> of at least one, the render returns and
  both sizes stay within \<open>m\<close>. With a bound of two, showing A, B, C evicts A (its
  node is unmounted); after that a render of B is a hit (kept-alive flag, the element of
  B's first mount) and a render of A is a miss (no kept-alive flag, no element yet).
\<close>

theorem keepalive_lru:
  "((STATEFUL_COMPONENT \<in> shapeFlag raw \<or> SUSPENSE \<in> shapeFlag raw) \<and>
    getInnerChild raw = Some vn \<and> \<not> ineligible props vn \<and>
    map_of (cache s) (cache_key_of vn) = Some (Some c) \<longrightarrow>
    (\<exists>v s'. render dev props (Some [Node raw]) s = Inr (RVNode v, s') \<and>
       COMPONENT_KEPT_ALIVE \<in> shapeFlag v \<and> el v = el c \<and> component v = component c \<and>
       keys s' = removeAll (cache_key_of vn) (keys s) @ [cache_key_of vn] \<and>
       cache s' = cache s)) \<and>
   ((STATEFUL_COMPONENT \<in> shapeFlag raw \<or> SUSPENSE \<in> shapeFlag raw) \<and>
    getInnerChild raw = Some vn \<and> \<not> ineligible props vn \<and>
    (\<forall>c. map_of (cache s) (cache_key_of vn) \<noteq> Some (Some c)) \<longrightarrow>
    (if max_truthy (max_p props) \<and>
        size_exceeds (length (keys_add (cache_key_of vn) (keys s))) (parseInt (max_p props))
     then (case map_of (cache s) (hd (keys_add (cache_key_of vn) (keys s))) of
         Some (Some old) \<Rightarrow>
           (\<exists>v s'. render dev props (Some [Node raw]) s = Inr (RVNode v, s') \<and>
              shapeFlag v = insert COMPONENT_SHOULD_KEEP_ALIVE (shapeFlag vn) \<and>
              keys s' = removeAll (hd (keys_add (cache_key_of vn) (keys s)))
                          (keys_add (cache_key_of vn) (keys s)) \<and>
              cache s' = cache_delete (hd (keys_add (cache_key_of vn) (keys s))) (cache s))
       | _ \<Rightarrow> render dev props (Some [Node raw]) s = Inl TypeError)
     else (\<exists>v s'. render dev props (Some [Node raw]) s = Inr (RVNode v, s') \<and>
        shapeFlag v = insert COMPONENT_SHOULD_KEEP_ALIVE (shapeFlag vn) \<and>
        keys s' = keys_add (cache_key_of vn) (keys s) \<and> cache s' = cache s))) \<and>
   (ka_inv s \<and> max_truthy (max_p props) \<and> parseInt (max_p props) = Some m \<and> 1 \<le> m \<and>
    int (length (keys s)) \<le> m \<and>
    (STATEFUL_COMPONENT \<in> shapeFlag raw \<or> SUSPENSE \<in> shapeFlag raw) \<and>
    getInnerChild raw = Some vn \<and> \<not> ineligible props vn \<longrightarrow>
    (\<exists>v s'. render dev props (Some [Node raw]) s = Inr (RVNode v, s') \<and>
     (if cache_key_of vn \<in> set (keys s) then
        COMPONENT_KEPT_ALIVE \<in> shapeFlag v \<and>
        keys s' = removeAll (cache_key_of vn) (keys s) @ [cache_key_of vn] \<and>
        cache s' = cache s
      else if int (length (keys s)) + 1 > m then
        keys s \<noteq> [] \<and>
        keys s' = tl (keys s) @ [cache_key_of vn] \<and>
        cache s' = cache_delete (hd (keys s)) (cache s)
      else
        keys s' = keys s @ [cache_key_of vn] \<and> cache s' = cache s) \<and>
     int (length (keys s')) \<le> m \<and>
     (\<forall>sub inner. getInnerChild sub = Some inner \<longrightarrow>
        ka_inv (cacheSubtree s' sub) \<and> keys (cacheSubtree s' sub) = keys s' \<and>
        int (length (cache (cacheSubtree s' sub))) \<le> m))) \<and>
   (max_truthy (max_p props) \<and> parseInt (max_p props) = Some m \<and> 1 \<le> m \<and>
    list_all (\<lambda>x. plain_child (fst x)) vs \<longrightarrow>
    (\<exists>s'. show_all dev props vs ka_init = Inr s' \<and> ka_inv s' \<and>
       int (length (keys s')) \<le> m \<and> int (length (cache s')) \<le> m)) \<and>
   show_all dev max2 [(nodeA, 10), (nodeB, 20)] ka_init = Inr shown_AB \<and>
   show_all dev max2 [(nodeC, 30)] shown_AB = Inr shown_ABC \<and>
   map fst (cache shown_AB) = [CComp 1, CComp 2] \<and>
   map fst (cache shown_ABC) = [CComp 2, CComp 3] \<and>
   unmounted shown_ABC = [set_mounted (Some 10) (Some 10) nodeA] \<and>
   map_option shapeFlag (rendered_node (render dev max2 (Some [Node nodeB]) shown_ABC)) =
     Some {COMPONENT_SHOULD_KEEP_ALIVE, COMPONENT_KEPT_ALIVE, STATEFUL_COMPONENT} \<and>
   map_option el (rendered_node (render dev max2 (Some [Node nodeB]) shown_ABC)) = Some (Some 20) \<and>
   map_option shapeFlag (rendered_node (render dev max2 (Some [Node nodeA]) shown_ABC)) =
     Some {COMPONENT_SHOULD_KEEP_ALIVE, STATEFUL_COMPONENT} \<and>
   map_option el (rendered_node (render dev max2 (Some [Node nodeA]) shown_ABC)) = Some None"
proof (intro conjI impI)
  assume "(STATEFUL_COMPONENT \<in> shapeFlag raw \<or> SUSPENSE \<in> shapeFlag raw) \<and>
    getInnerChild raw = Some vn \<and> \<not> ineligible props vn \<and>
    map_of (cache s) (cache_key_of vn) = Some (Some c)"
  then show "\<exists>v s'. render dev props (Some [Node raw]) s = Inr (RVNode v, s') \<and>
       COMPONENT_KEPT_ALIVE \<in> shapeFlag v \<and> el v = el c \<and> component v = component c \<and>
       keys s' = removeAll (cache_key_of vn) (keys s) @ [cache_key_of vn] \<and>
       cache s' = cache s"
    using render_hit[of raw vn props s c dev] by blast
next
  assume "(STATEFUL_COMPONENT \<in> shapeFlag raw \<or> SUSPENSE \<in> shapeFlag raw) \<and>
    getInnerChild raw = Some vn \<and> \<not> ineligible props vn \<and>
    (\<forall>c. map_of (cache s) (cache_key_of vn) \<noteq> Some (Some c))"
  then have a: "STATEFUL_COMPONENT \<in> shapeFlag raw \<or> SUSPENSE \<in> shapeFlag raw"
    "getInnerChild raw = Some vn" "\<not> ineligible props vn"
    "\<forall>c. map_of (cache s) (cache_key_of vn) \<noteq> Some (Some c)" by simp_all
  show "if max_truthy (max_p props) \<and>
        size_exceeds (length (keys_add (cache_key_of vn) (keys s))) (parseInt (max_p props))
     then (case map_of (cache s) (hd (keys_add (cache_key_of vn) (keys s))) of
         Some (Some old) \<Rightarrow>
           (\<exists>v s'. render dev props (Some [Node raw]) s = Inr (RVNode v, s') \<and>
              shapeFlag v = insert COMPONENT_SHOULD_KEEP_ALIVE (shapeFlag vn) \<and>
              keys s' = removeAll (hd (keys_add (cache_key_of vn) (keys s)))
                          (keys_add (cache_key_of vn) (keys s)) \<and>
              cache s' = cache_delete (hd (keys_add (cache_key_of vn) (keys s))) (cache s))
       | _ \<Rightarrow> render dev props (Some [Node raw]) s = Inl TypeError)
     else (\<exists>v s'. render dev props (Some [Node raw]) s = Inr (RVNode v, s') \<and>
        shapeFlag v = insert COMPONENT_SHOULD_KEEP_ALIVE (shapeFlag vn) \<and>
        keys s' = keys_add (cache_key_of vn) (keys s) \<and> cache s' = cache s)"
    by (rule render_miss[OF a])
next
  assume "ka_inv s \<and> max_truthy (max_p props) \<and> parseInt (max_p props) = Some m \<and> 1 \<le> m \<and>
    int (length (keys s)) \<le> m \<and>
    (STATEFUL_COMPONENT \<in> shapeFlag raw \<or> SUSPENSE \<in> shapeFlag raw) \<and>
    getInnerChild raw = Some vn \<and> \<not> ineligible props vn"
  then show "\<exists>v s'. render dev props (Some [Node raw]) s = Inr (RVNode v, s') \<and>
     (if cache_key_of vn \<in> set (keys s) then
        COMPONENT_KEPT_ALIVE \<in> shapeFlag v \<and>
        keys s' = removeAll (cache_key_of vn) (keys s) @ [cache_key_of vn] \<and>
        cache s' = cache s
      else if int (length (keys s)) + 1 > m then
        keys s \<noteq> [] \<and>
        keys s' = tl (keys s) @ [cache_key_of vn] \<and>
        cache s' = cache_delete (hd (keys s)) (cache s)
      else
        keys s' = keys s @ [cache_key_of vn] \<and> cache s' = cache s) \<and>
     int (length (keys s')) \<le> m \<and>
     (\<forall>sub inner. getInnerChild sub = Some inner \<longrightarrow>
        ka_inv (cacheSubtree s' sub) \<and> keys (cacheSubtree s' sub) = keys s' \<and>
        int (length (cache (cacheSubtree s' sub))) \<le> m)"
    using lru_render[of s props m raw vn dev] by blast
next
  assume "max_truthy (max_p props) \<and> parseInt (max_p props) = Some m \<and> 1 \<le> m \<and>
    list_all (\<lambda>x. plain_child (fst x)) vs"
  then have a: "max_truthy (max_p props)" "parseInt (max_p props) = Some m" "1 \<le> m"
    "list_all (\<lambda>x. plain_child (fst x)) vs" by simp_all
  have "int (length (keys ka_init)) \<le> m" using a(3) by (simp add: ka_init_def)
  from show_all_inv[OF a(1,2,3) ka_inv_init this a(4)]
  show "\<exists>s'. show_all dev props vs ka_init = Inr s' \<and> ka_inv s' \<and>
       int (length (keys s')) \<le> m \<and> int (length (cache s')) \<le> m" .
next
  show "show_all dev max2 [(nodeA, 10), (nodeB, 20)] ka_init = Inr shown_AB"
    by (rule scenario_AB)
  show "show_all dev max2 [(nodeC, 30)] shown_AB = Inr shown_ABC"
    by (rule scenario_C)
  show "map fst (cache shown_AB) = [CComp 1, CComp 2]"
    by (simp add: shown_AB_def)
  show "map fst (cache shown_ABC) = [CComp 2, CComp 3]"
    by (simp add: shown_ABC_def)
  show "unmounted shown_ABC = [set_mounted (Some 10) (Some 10) nodeA]"
    by (simp add: shown_ABC_def)
  show "map_option shapeFlag (rendered_node (render dev max2 (Some [Node nodeB]) shown_ABC)) =
     Some {COMPONENT_SHOULD_KEEP_ALIVE, COMPONENT_KEPT_ALIVE, STATEFUL_COMPONENT}"
    by (rule scenario_B_hit)
  show "map_option el (rendered_node (render dev max2 (Some [Node nodeB]) shown_ABC)) = Some (Some 20)"
    by (rule scenario_B_hit)
  show "map_option shapeFlag (rendered_node (render dev max2 (Some [Node nodeA]) shown_ABC)) =
     Some {COMPONENT_SHOULD_KEEP_ALIVE, STATEFUL_COMPONENT}"
    by (rule scenario_A_miss)
  show "map_option el (rendered_node (render dev max2 (Some [Node nodeA]) shown_ABC)) = Some None"
    by (rule scenario_A_miss)
qed

lemma ka_inv_shown_AB: "ka_inv shown_AB"
  by (simp add: ka_inv_def cache_nonnull_def shown_AB_def)

lemma eligible_max2: "\<not> ineligible max2 v"
  by (simp add: ineligible_def max2_def)

lemma plain_nodes: "plain_child nodeA" "plain_child nodeB" "plain_child nodeC"
  by (simp_all add: plain_child_def nodeA_def nodeB_def nodeC_def fresh_node_def)

theorem keepalive_lru_witness:
  "((STATEFUL_COMPONENT \<in> shapeFlag nodeB \<or> SUSPENSE \<in> shapeFlag nodeB) \<and>
    getInnerChild nodeB = Some nodeB \<and> \<not> ineligible max2 nodeB \<and>
    map_of (cache shown_ABC) (cache_key_of nodeB) = Some (Some (kept 20 nodeB)) \<and>
    (\<exists>v s'. render True max2 (Some [Node nodeB]) shown_ABC = Inr (RVNode v, s') \<and>
       COMPONENT_KEPT_ALIVE \<in> shapeFlag v \<and> el v = Some 20 \<and>
       keys s' = [CComp 3, CComp 2] \<and> cache s' = cache shown_ABC)) \<and>
   ((STATEFUL_COMPONENT \<in> shapeFlag nodeA \<or> SUSPENSE \<in> shapeFlag nodeA) \<and>
    getInnerChild nodeA = Some nodeA \<and> \<not> ineligible max2 nodeA \<and>
    map_of (cache shown_ABC) (cache_key_of nodeA) = None \<and>
    (\<exists>v s'. render True max2 (Some [Node nodeA]) shown_ABC = Inr (RVNode v, s') \<and>
       keys s' = [CComp 3, CComp 1] \<and> map fst (cache s') = [CComp 3])) \<and>
   (ka_inv shown_AB \<and> max_truthy (max_p max2) \<and> parseInt (max_p max2) = Some 2 \<and> (1::int) \<le> 2 \<and>
    int (length (keys shown_AB)) \<le> 2 \<and>
    (STATEFUL_COMPONENT \<in> shapeFlag nodeC \<or> SUSPENSE \<in> shapeFlag nodeC) \<and>
    getInnerChild nodeC = Some nodeC \<and> \<not> ineligible max2 nodeC \<and>
    (\<exists>v s'. render True max2 (Some [Node nodeC]) shown_AB = Inr (RVNode v, s') \<and>
      keys s' = [CComp 2, CComp 3] \<and> map fst (cache s') = [CComp 2] \<and>
      int (length (keys s')) \<le> 2)) \<and>
   (list_all (\<lambda>x. plain_child (fst x)) [(nodeA, 10), (nodeB, 20), (nodeC, 30), (nodeA, 40)] \<and>
    (\<exists>s'. show_all True max2 [(nodeA, 10), (nodeB, 20), (nodeC, 30), (nodeA, 40)] ka_init = Inr s' \<and>
       ka_inv s' \<and> int (length (keys s')) \<le> 2 \<and> int (length (cache s')) \<le> 2))"
proof (intro conjI)
  have kB: "cache_key_of nodeB = CComp 2" and kA: "cache_key_of nodeA = CComp 1"
    and kC: "cache_key_of nodeC = CComp 3"
    by (simp_all add: cache_key_of_def nodeA_def nodeB_def nodeC_def fresh_node_def comp_named_def)
  have mx: "max_truthy (max_p max2)" "parseInt (max_p max2) = Some 2"
    by (simp_all add: max2_def)
  show b1: "STATEFUL_COMPONENT \<in> shapeFlag nodeB \<or> SUSPENSE \<in> shapeFlag nodeB"
    by (simp add: nodeB_def fresh_node_def)
  show b2: "getInnerChild nodeB = Some nodeB"
    by (simp add: getInnerChild_def nodeB_def fresh_node_def)
  show b3: "\<not> ineligible max2 nodeB" by (rule eligible_max2)
  show b4: "map_of (cache shown_ABC) (cache_key_of nodeB) = Some (Some (kept 20 nodeB))"
    by (simp add: kB shown_ABC_def)
  have fB: "el (kept 20 nodeB) = Some 20"
    "removeAll (cache_key_of nodeB) (keys shown_ABC) @ [cache_key_of nodeB] = [CComp 3, CComp 2]"
    by (simp_all add: kept_def kB shown_ABC_def)
  have "\<exists>v s'. render True max2 (Some [Node nodeB]) shown_ABC = Inr (RVNode v, s') \<and>
       COMPONENT_KEPT_ALIVE \<in> shapeFlag v \<and> el v = el (kept 20 nodeB) \<and>
       component v = component (kept 20 nodeB) \<and>
       keys s' = removeAll (cache_key_of nodeB) (keys shown_ABC) @ [cache_key_of nodeB] \<and>
       cache s' = cache shown_ABC"
    using keepalive_lru [where raw = nodeB and vn = nodeB and props = max2 and s = shown_ABC
        and c = "kept 20 nodeB" and dev = True, THEN conjunct1] b1 b2 b3 b4
    by blast
  then show "\<exists>v s'. render True max2 (Some [Node nodeB]) shown_ABC = Inr (RVNode v, s') \<and>
       COMPONENT_KEPT_ALIVE \<in> shapeFlag v \<and> el v = Some 20 \<and>
       keys s' = [CComp 3, CComp 2] \<and> cache s' = cache shown_ABC"
    unfolding fB by blast
  show a1: "STATEFUL_COMPONENT \<in> shapeFlag nodeA \<or> SUSPENSE \<in> shapeFlag nodeA"
    by (simp add: nodeA_def fresh_node_def)
  show a2: "getInnerChild nodeA = Some nodeA"
    by (simp add: getInnerChild_def nodeA_def fresh_node_def)
  show a3: "\<not> ineligible max2 nodeA" by (rule eligible_max2)
  show a4: "map_of (cache shown_ABC) (cache_key_of nodeA) = None"
    by (simp add: kA shown_ABC_def)
  have a5: "\<forall>c. map_of (cache shown_ABC) (cache_key_of nodeA) \<noteq> Some (Some c)"
    by (simp add: a4)
  have ka: "keys_add (cache_key_of nodeA) (keys shown_ABC) = [CComp 2, CComp 3, CComp 1]"
    by (simp add: kA keys_add_def shown_ABC_def)
  have kb: "map_of (cache shown_ABC) (CComp 2) = Some (Some (kept 20 nodeB))"
    "map fst (cache_delete (CComp 2) (cache shown_ABC)) = [CComp 3]"
    by (simp_all add: shown_ABC_def cache_delete_def)
  have ex: "max_truthy (max_p max2) \<and>
     size_exceeds (length (keys_add (cache_key_of nodeA) (keys shown_ABC))) (parseInt (max_p max2))"
    by (simp add: ka mx size_exceeds_def)
  have "if max_truthy (max_p max2) \<and>
        size_exceeds (length (keys_add (cache_key_of nodeA) (keys shown_ABC))) (parseInt (max_p max2))
     then (case map_of (cache shown_ABC) (hd (keys_add (cache_key_of nodeA) (keys shown_ABC))) of
         Some (Some old) \<Rightarrow>
           (\<exists>v s'. render True max2 (Some [Node nodeA]) shown_ABC = Inr (RVNode v, s') \<and>
              shapeFlag v = insert COMPONENT_SHOULD_KEEP_ALIVE (shapeFlag nodeA) \<and>
              keys s' = removeAll (hd (keys_add (cache_key_of nodeA) (keys shown_ABC)))
                          (keys_add (cache_key_of nodeA) (keys shown_ABC)) \<and>
              cache s' = cache_delete (hd (keys_add (cache_key_of nodeA) (keys shown_ABC)))
                           (cache shown_ABC))
       | _ \<Rightarrow> render True max2 (Some [Node nodeA]) shown_ABC = Inl TypeError)
     else (\<exists>v s'. render True max2 (Some [Node nodeA]) shown_ABC = Inr (RVNode v, s') \<and>
        shapeFlag v = insert COMPONENT_SHOULD_KEEP_ALIVE (shapeFlag nodeA) \<and>
        keys s' = keys_add (cache_key_of nodeA) (keys shown_ABC) \<and> cache s' = cache shown_ABC)"
    using keepalive_lru [where raw = nodeA and vn = nodeA and props = max2 and s = shown_ABC
        and dev = True, THEN conjunct2, THEN conjunct1] a1 a2 a3 a5
    by blast
  then have "\<exists>v s'. render True max2 (Some [Node nodeA]) shown_ABC = Inr (RVNode v, s') \<and>
       shapeFlag v = insert COMPONENT_SHOULD_KEEP_ALIVE (shapeFlag nodeA) \<and>
       keys s' = [CComp 3, CComp 1] \<and>
       cache s' = cache_delete (CComp 2) (cache shown_ABC)"
    unfolding if_P[OF ex] by (simp add: ka kb(1))
  then show "\<exists>v s'. render True max2 (Some [Node nodeA]) shown_ABC = Inr (RVNode v, s') \<and>
       keys s' = [CComp 3, CComp 1] \<and> map fst (cache s') = [CComp 3]"
    using kb(2) by auto
  show i: "ka_inv shown_AB" by (rule ka_inv_shown_AB)
  show "max_truthy (max_p max2)" "parseInt (max_p max2) = Some 2" by (rule mx)+
  show o: "(1::int) \<le> 2" by simp
  show l: "int (length (keys shown_AB)) \<le> 2" by (simp add: shown_AB_def)
  show c1: "STATEFUL_COMPONENT \<in> shapeFlag nodeC \<or> SUSPENSE \<in> shapeFlag nodeC"
    by (simp add: nodeC_def fresh_node_def)
  show c2: "getInnerChild nodeC = Some nodeC"
    by (simp add: getInnerChild_def nodeC_def fresh_node_def)
  show c3: "\<not> ineligible max2 nodeC" by (rule eligible_max2)
  have k: "cache_key_of nodeC \<notin> set (keys shown_AB)"
    "int (length (keys shown_AB)) + 1 > 2"
    "tl (keys shown_AB) @ [cache_key_of nodeC] = [CComp 2, CComp 3]"
    "map fst (cache_delete (hd (keys shown_AB)) (cache shown_AB)) = [CComp 2]"
    by (simp_all add: kC shown_AB_def cache_delete_def)
  have "\<exists>v s'. render True max2 (Some [Node nodeC]) shown_AB = Inr (RVNode v, s') \<and>
     (if cache_key_of nodeC \<in> set (keys shown_AB) then
        COMPONENT_KEPT_ALIVE \<in> shapeFlag v \<and>
        keys s' = removeAll (cache_key_of nodeC) (keys shown_AB) @ [cache_key_of nodeC] \<and>
        cache s' = cache shown_AB
      else if int (length (keys shown_AB)) + 1 > 2 then
        keys shown_AB \<noteq> [] \<and>
        keys s' = tl (keys shown_AB) @ [cache_key_of nodeC] \<and>
        cache s' = cache_delete (hd (keys shown_AB)) (cache shown_AB)
      else
        keys s' = keys shown_AB @ [cache_key_of nodeC] \<and> cache s' = cache shown_AB) \<and>
     int (length (keys s')) \<le> 2 \<and>
     (\<forall>sub inner. getInnerChild sub = Some inner \<longrightarrow>
        ka_inv (cacheSubtree s' sub) \<and> keys (cacheSubtree s' sub) = keys s' \<and>
        int (length (cache (cacheSubtree s' sub))) \<le> 2)"
    using keepalive_lru [where raw = nodeC and vn = nodeC and props = max2 and s = shown_AB
        and m = 2 and dev = True, THEN conjunct2, THEN conjunct2, THEN conjunct1]
      i mx o l c1 c2 c3
    by blast
  then have "\<exists>v s'. render True max2 (Some [Node nodeC]) shown_AB = Inr (RVNode v, s') \<and>
      keys s' = [CComp 2, CComp 3] \<and>
      cache s' = cache_delete (hd (keys shown_AB)) (cache shown_AB) \<and>
      int (length (keys s')) \<le> 2"
    unfolding if_not_P[OF k(1)] if_P[OF k(2)] k(3) by blast
  then show "\<exists>v s'. render True max2 (Some [Node nodeC]) shown_AB = Inr (RVNode v, s') \<and>
      keys s' = [CComp 2, CComp 3] \<and> map fst (cache s') = [CComp 2] \<and>
      int (length (keys s')) \<le> 2"
    using k(4) by auto
  show p: "list_all (\<lambda>x. plain_child (fst x)) [(nodeA, 10), (nodeB, 20), (nodeC, 30), (nodeA, 40)]"
    by (simp add: plain_nodes)
  show "\<exists>s'. show_all True max2 [(nodeA, 10), (nodeB, 20), (nodeC, 30), (nodeA, 40)] ka_init = Inr s' \<and>
       ka_inv s' \<and> int (length (keys s')) \<le> 2 \<and> int (length (cache s')) \<le> 2"
    using keepalive_lru [where props = max2 and m = 2 and dev = True
        and vs = "[(nodeA, 10), (nodeB, 20), (nodeC, 30), (nodeA, 40)]",
        THEN conjunct2, THEN conjunct2, THEN conjunct2, THEN conjunct1] mx o p
    by blast
qed

subsection \<open>When keys and cache agree\<close>

lemma pruneCacheEntry_between:
  assumes "pruneCacheEntry s k = Inr s'"
    "fst ` set (cache s) \<subseteq> set (keys s)" "set (keys s) \<subseteq> fst ` set (cache s) \<union> P"
  shows "fst ` set (cache s') \<subseteq> set (keys s') \<and> set (keys s') \<subseteq> fst ` set (cache s') \<union> P \<and>
     pendingCacheKey s' = pendingCacheKey s"
  using pruneCacheEntry_Inr[OF assms(1)] assms(2,3) by auto

lemma pruneCache_loop_between:
  "pruneCache_loop flt es s = Inr s' \<Longrightarrow>
   fst ` set (cache s) \<subseteq> set (keys s) \<Longrightarrow> set (keys s) \<subseteq> fst ` set (cache s) \<union> P \<Longrightarrow>
   fst ` set (cache s') \<subseteq> set (keys s') \<and> set (keys s') \<subseteq> fst ` set (cache s') \<union> P \<and>
     pendingCacheKey s' = pendingCacheKey s"
proof (induction flt es s rule: pruneCache_loop.induct)
  case (1 flt s)
  then show ?case by simp
next
  case (2 flt key rest s)
  then show ?case by simp
next
  case (3 flt key vnode rest s)
  show ?case
  proof (cases "name_truthy (cname (vtype vnode)) \<and>
      (case flt of None \<Rightarrow> True | Some f \<Rightarrow> \<not> f (the (cname (vtype vnode))))")
    case True
    with "3.prems"(1) obtain s1 where p: "pruneCacheEntry s key = Inr s1"
      and l: "pruneCache_loop flt rest s1 = Inr s'"
      by (auto simp: Let_def split: sum.splits)
    from pruneCacheEntry_between[OF p "3.prems"(2,3)] have
      b: "fst ` set (cache s1) \<subseteq> set (keys s1)" "set (keys s1) \<subseteq> fst ` set (cache s1) \<union> P"
      and q: "pendingCacheKey s1 = pendingCacheKey s" by simp_all
    from "3.IH"(1)[OF refl True p l b] q show ?thesis by simp
  next
    case False
    with "3.prems"(1) have l: "pruneCache_loop flt rest s = Inr s'"
      by (auto simp: Let_def)
    from "3.IH"(2)[OF refl False l "3.prems"(2,3)] show ?thesis .
  qed
qed

lemma on_patterns_change_between:
  assumes "on_patterns_change inc exc s = Inr s'"
    "fst ` set (cache s) \<subseteq> set (keys s)" "set (keys s) \<subseteq> fst ` set (cache s) \<union> P"
  shows "fst ` set (cache s') \<subseteq> set (keys s') \<and> set (keys s') \<subseteq> fst ` set (cache s') \<union> P \<and>
     pendingCacheKey s' = pendingCacheKey s"
proof -
  obtain s1 where s1: "(if pattern_truthy inc
       then pruneCache (Some (\<lambda>name. matches (the inc) name)) s else Inr s) = Inr s1"
    and s2: "(if pattern_truthy exc
       then pruneCache (Some (\<lambda>name. \<not> matches (the exc) name)) s1 else Inr s1) = Inr s'"
    using assms(1) by (auto simp: on_patterns_change_def split: sum.splits)
  have b1: "fst ` set (cache s1) \<subseteq> set (keys s1) \<and> set (keys s1) \<subseteq> fst ` set (cache s1) \<union> P \<and>
     pendingCacheKey s1 = pendingCacheKey s"
    using s1 assms(2,3) pruneCache_loop_between[of _ "cache s" s s1 P]
    by (auto simp: pruneCache_def split: if_splits)
  then show ?thesis
    using s2 pruneCache_loop_between[of _ "cache s1" s1 s' P]
    by (auto simp: pruneCache_def split: if_splits)
qed

lemma render_cached_RVNode:
  "render_cached props vn s = Inr (res, s') \<Longrightarrow> \<exists>v. res = RVNode v"
  by (auto simp: render_cached_def keep_and_return_eq Let_def
      split: option.splits if_splits list.splits sum.splits)

lemma render_pending:
  assumes "render dev props slot s = Inr (res, s')" "\<forall>v. res \<noteq> RVNode v"
  shows "pendingCacheKey s' = None"
  using render_other[OF assms(1)] assms(2) by (auto dest: render_cached_RVNode)

lemma show_child_agree:
  assumes "agree s" "show_child dev props v n s = Inr (res, s')"
  shows "agree s'"
proof -
  from assms(2) obtain s1 where r: "render dev props (Some [Node v]) s = Inr (res, s1)"
    and s': "s' = (case res of RVNode v' \<Rightarrow> cacheSubtree s1 (patched n v') | _ \<Rightarrow> s1)"
    by (auto simp: show_child_def split: sum.splits)
  from render_between[OF assms(1) r] have b: "fst ` set (cache s1) \<subseteq> set (keys s1)"
    "set (keys s1) \<subseteq> fst ` set (cache s1) \<union> set_option (pendingCacheKey s1)"
    "set_option (pendingCacheKey s1) \<subseteq> set (keys s1)" by simp_all
  show ?thesis
  proof (cases "\<exists>v'. res = RVNode v'")
    case True
    then show ?thesis using cacheSubtree_agree[OF b] by (auto simp: s')
  next
    case False
    then have n: "\<forall>v. res \<noteq> RVNode v" by simp
    from render_pending[OF r n] b have "agree s1" by (auto simp: agree_def)
    moreover from n have "s' = s1" by (cases res) (simp_all add: s')
    ultimately show ?thesis by simp
  qed
qed

lemma show_all_agree:
  "agree s \<Longrightarrow> show_all dev props vs s = Inr s' \<Longrightarrow> agree s'"
proof (induction vs arbitrary: s)
  case Nil
  then show ?case by simp
next
  case (Cons x vs)
  obtain v n where x: "x = (v, n)" by (cases x)
  from Cons.prems(2) obtain res s1 where sc: "show_child dev props v n s = Inr (res, s1)"
    and rest: "show_all dev props vs s1 = Inr s'"
    by (auto simp: x split: sum.splits)
  from Cons.IH[OF show_child_agree[OF Cons.prems(1) sc] rest] show ?case .
qed

lemma show_child_prune_sets:
  assumes "agree s" "show_child_prune dev props v n s = Inr s'"
  shows "set (keys s') \<subseteq> fst ` set (cache s') \<and>
     fst ` set (cache s') \<subseteq> set (keys s') \<union> set_option (pendingCacheKey s') \<and>
     agree s' = (set_option (pendingCacheKey s') \<subseteq> set (keys s'))"
proof -
  from assms(2) obtain res s1 s2 where r: "render dev props (Some [Node v]) s = Inr (res, s1)"
    and p: "on_patterns_change (include_p props) (exclude_p props) s1 = Inr s2"
    and s': "s' = (case res of RVNode v' \<Rightarrow> cacheSubtree s2 (patched n v') | _ \<Rightarrow> s2)"
    by (auto simp: show_child_prune_def split: sum.splits)
  from render_between[OF assms(1) r] have b: "fst ` set (cache s1) \<subseteq> set (keys s1)"
    "set (keys s1) \<subseteq> fst ` set (cache s1) \<union> set_option (pendingCacheKey s1)" by simp_all
  from on_patterns_change_between[OF p b] have c: "fst ` set (cache s2) \<subseteq> set (keys s2)"
    "set (keys s2) \<subseteq> fst ` set (cache s2) \<union> set_option (pendingCacheKey s1)"
    "pendingCacheKey s2 = pendingCacheKey s1" by simp_all
  show ?thesis
  proof (cases "\<exists>v'. res = RVNode v'")
    case True
    then obtain v' where "res = RVNode v'" ..
    then have "s' = cacheSubtree s2 (patched n v')" by (simp add: s')
    with c show ?thesis
      by (auto simp: cacheSubtree_def agree_def split: option.splits)
  next
    case False
    then have n: "\<forall>v. res \<noteq> RVNode v" by simp
    from n have "s' = s2" by (cases res) (simp_all add: s')
    with render_pending[OF r n] c show ?thesis by (auto simp: agree_def)
  qed
qed

text \<open>
  C2, as the claim states it, fails. (1) Right after a render: the first render of a
  child puts its key into \<open>keys\<close> while \<open>cache\<close> is still empty; the entry is only
  set by the mounted hook. (2) After a hook as well, when the watcher has pruned between
  the render and the hook: an async wrapper is cached, \<open>include\<close> becomes the name of
  its resolved component, the render is a hit, the watcher prunes the entry because the
  wrapper's own name does not match, and the hook sets the entry again: \<open>keys\<close> is
  empty and \<open>cache\<close> holds the wrapper's key. (3) And when two renders run before one
  hook: the key of the first render stays in \<open>keys\<close> and never reaches \<open>cache\<close>.
\<close>

theorem keys_cache_disagree_counterexample:
  "render True max2 (Some [Node nodeA]) ka_init =
     Inr (RVNode (set_shapeFlag {COMPONENT_SHOULD_KEEP_ALIVE, STATEFUL_COMPONENT} nodeA), rendered_A) \<and>
   keys rendered_A = [CComp 1] \<and> cache rendered_A = [] \<and> \<not> agree rendered_A \<and>
   keys_of (show_all True max1 [(nodeW, 10)] ka_init) = Some [CComp 5] \<and>
   cached_of (show_all True max1 [(nodeW, 10)] ka_init) = Some [CComp 5] \<and>
   keys_of (and_then (show_all True max1 [(nodeW, 10)] ka_init)
             (show_child_prune True max1_Foo nodeW 10)) = Some [] \<and>
   cached_of (and_then (show_all True max1 [(nodeW, 10)] ka_init)
             (show_child_prune True max1_Foo nodeW 10)) = Some [CComp 5] \<and>
   keys_of (hook_after 20 (render True max2 (Some [Node nodeB]) rendered_A)) =
     Some [CComp 1, CComp 2] \<and>
   cached_of (hook_after 20 (render True max2 (Some [Node nodeB]) rendered_A)) = Some [CComp 2]"
proof -
  have k: "\<not> isl r \<Longrightarrow> (\<And>s. r = Inr s \<Longrightarrow> keys s = ks \<and> map fst (cache s) = cs) \<Longrightarrow>
      keys_of r = Some ks \<and> cached_of r = Some cs" for r ks cs
    by (cases r) simp_all
  have a: "render True max2 (Some [Node nodeA]) ka_init =
     Inr (RVNode (set_shapeFlag {COMPONENT_SHOULD_KEEP_ALIVE, STATEFUL_COMPONENT} nodeA), rendered_A)"
    by (simp add: scenario_defs rendered_A_def insert_commute)
  have b: "keys rendered_A = [CComp 1] \<and> cache rendered_A = [] \<and> \<not> agree rendered_A"
    by (simp add: rendered_A_def agree_def)
  have c: "show_all True max1 [(nodeW, 10)] ka_init = Inr s \<Longrightarrow>
      keys s = [CComp 5] \<and> map fst (cache s) = [CComp 5]" for s
    by (auto simp: scenario_defs more_defs insert_commute)
  have c': "\<not> isl (show_all True max1 [(nodeW, 10)] ka_init)"
    by (simp add: scenario_defs more_defs insert_commute)
  have d: "and_then (show_all True max1 [(nodeW, 10)] ka_init)
             (show_child_prune True max1_Foo nodeW 10) = Inr s \<Longrightarrow>
      keys s = [] \<and> map fst (cache s) = [CComp 5]" for s
    by (auto simp: scenario_defs more_defs insert_commute)
  have d': "\<not> isl (and_then (show_all True max1 [(nodeW, 10)] ka_init)
             (show_child_prune True max1_Foo nodeW 10))"
    by (simp add: scenario_defs more_defs insert_commute)
  have e: "hook_after 20 (render True max2 (Some [Node nodeB]) rendered_A) = Inr s \<Longrightarrow>
      keys s = [CComp 1, CComp 2] \<and> map fst (cache s) = [CComp 2]" for s
    by (auto simp: scenario_defs rendered_A_def insert_commute)
  have e': "\<not> isl (hook_after 20 (render True max2 (Some [Node nodeB]) rendered_A))"
    by (simp add: scenario_defs rendered_A_def insert_commute)
  from a b k[OF c' c] k[OF d' d] k[OF e' e] show ?thesis by simp
qed

text \<open>
  C2, amended. From a state in which \<open>keys\<close> and \<open>cache\<close> hold the same keys:
  after a render the keys of \<open>cache\<close> are among \<open>keys\<close>, and \<open>keys\<close> holds at most
  the pending key in addition; the mounted or updated hook, run directly on that state,
  makes both hold the same keys again, and so they do after any renders that are each
  directly followed by their hook; and every prune of such a state (of one entry, of the
  whole cache, or by the watcher on include and exclude) keeps them the same. When the
  watcher prunes between a render and its hook, then after the hook every key of
  \<open>keys\<close> is a key of \<open>cache\<close>, \<open>cache\<close> holds at most the pending key in addition,
  and both hold the same keys exactly when the pending key is still in \<open>keys\<close>.
\<close>

theorem keys_cache_agree:
  "agree s \<Longrightarrow>
   (case render dev props slot s of
      Inl e \<Rightarrow> True
    | Inr (res, s1) \<Rightarrow>
        fst ` set (cache s1) \<subseteq> set (keys s1) \<and>
        set (keys s1) \<subseteq> fst ` set (cache s1) \<union> set_option (pendingCacheKey s1) \<and>
        (\<forall>sub. agree (cacheSubtree s1 sub))) \<and>
   (case pruneCacheEntry s k of Inl e \<Rightarrow> True | Inr s2 \<Rightarrow> agree s2) \<and>
   (case pruneCache flt s of Inl e \<Rightarrow> True | Inr s3 \<Rightarrow> agree s3) \<and>
   (case on_patterns_change inc exc s of Inl e \<Rightarrow> True | Inr s4 \<Rightarrow> agree s4) \<and>
   (case show_all dev props vs s of Inl e \<Rightarrow> True | Inr s5 \<Rightarrow> agree s5) \<and>
   (case show_child_prune dev props v n s of
      Inl e \<Rightarrow> True
    | Inr s6 \<Rightarrow>
        set (keys s6) \<subseteq> fst ` set (cache s6) \<and>
        fst ` set (cache s6) \<subseteq> set (keys s6) \<union> set_option (pendingCacheKey s6) \<and>
        agree s6 = (set_option (pendingCacheKey s6) \<subseteq> set (keys s6)))"
proof (intro conjI)
  assume a: "agree s"
  show "case render dev props slot s of
      Inl e \<Rightarrow> True
    | Inr (res, s1) \<Rightarrow>
        fst ` set (cache s1) \<subseteq> set (keys s1) \<and>
        set (keys s1) \<subseteq> fst ` set (cache s1) \<union> set_option (pendingCacheKey s1) \<and>
        (\<forall>sub. agree (cacheSubtree s1 sub))"
  proof (cases "render dev props slot s")
    case (Inr r)
    obtain res s1 where r: "r = (res, s1)" by (cases r)
    from render_between[OF a Inr[unfolded r]] show ?thesis
      by (simp add: Inr r cacheSubtree_agree)
  qed simp
  show "case pruneCacheEntry s k of Inl e \<Rightarrow> True | Inr s2 \<Rightarrow> agree s2"
    using a by (auto split: sum.splits dest: pruneCacheEntry_agree)
  show "case pruneCache flt s of Inl e \<Rightarrow> True | Inr s3 \<Rightarrow> agree s3"
    using a by (auto simp: pruneCache_def split: sum.splits dest: pruneCache_loop_agree)
  show "case on_patterns_change inc exc s of Inl e \<Rightarrow> True | Inr s4 \<Rightarrow> agree s4"
    using a by (auto split: sum.splits dest: on_patterns_change_agree)
  show "case show_all dev props vs s of Inl e \<Rightarrow> True | Inr s5 \<Rightarrow> agree s5"
    using a by (auto split: sum.splits dest: show_all_agree)
  show "case show_child_prune dev props v n s of
      Inl e \<Rightarrow> True
    | Inr s6 \<Rightarrow>
        set (keys s6) \<subseteq> fst ` set (cache s6) \<and>
        fst ` set (cache s6) \<subseteq> set (keys s6) \<union> set_option (pendingCacheKey s6) \<and>
        agree s6 = (set_option (pendingCacheKey s6) \<subseteq> set (keys s6))"
  proof (cases "show_child_prune dev props v n s")
    case (Inr s6)
    from show_child_prune_sets[OF a Inr] show ?thesis
      by (simp add: Inr)
  qed simp
qed

lemma agree_shown_AB: "agree shown_AB"
  by (simp add: agree_def shown_AB_def)

theorem keys_cache_agree_witness:
  "agree shown_AB \<and>
   (\<not> isl (render True max2 (Some [Node nodeC]) shown_AB) \<and>
    \<not> isl (pruneCacheEntry shown_AB (CComp 1)) \<and>
    \<not> isl (pruneCache None shown_AB) \<and>
    \<not> isl (on_patterns_change (Some (PStr ''B'')) None shown_AB) \<and>
    \<not> isl (show_all True max2 [(nodeC, 30), (nodeA, 40)] shown_AB) \<and>
    \<not> isl (show_child_prune True max2 nodeC 30 shown_AB)) \<and>
   ((case render True max2 (Some [Node nodeC]) shown_AB of
      Inl e \<Rightarrow> True
    | Inr (res, s1) \<Rightarrow>
        fst ` set (cache s1) \<subseteq> set (keys s1) \<and>
        set (keys s1) \<subseteq> fst ` set (cache s1) \<union> set_option (pendingCacheKey s1) \<and>
        (\<forall>sub. agree (cacheSubtree s1 sub))) \<and>
   (case pruneCacheEntry shown_AB (CComp 1) of Inl e \<Rightarrow> True | Inr s2 \<Rightarrow> agree s2) \<and>
   (case pruneCache None shown_AB of Inl e \<Rightarrow> True | Inr s3 \<Rightarrow> agree s3) \<and>
   (case on_patterns_change (Some (PStr ''B'')) None shown_AB of
      Inl e \<Rightarrow> True | Inr s4 \<Rightarrow> agree s4) \<and>
   (case show_all True max2 [(nodeC, 30), (nodeA, 40)] shown_AB of
      Inl e \<Rightarrow> True | Inr s5 \<Rightarrow> agree s5) \<and>
   (case show_child_prune True max2 nodeC 30 shown_AB of
      Inl e \<Rightarrow> True
    | Inr s6 \<Rightarrow>
        set (keys s6) \<subseteq> fst ` set (cache s6) \<and>
        fst ` set (cache s6) \<subseteq> set (keys s6) \<union> set_option (pendingCacheKey s6) \<and>
        agree s6 = (set_option (pendingCacheKey s6) \<subseteq> set (keys s6))))"
proof -
  have n: "\<not> isl (render True max2 (Some [Node nodeC]) shown_AB) \<and>
    \<not> isl (pruneCacheEntry shown_AB (CComp 1)) \<and>
    \<not> isl (pruneCache None shown_AB) \<and>
    \<not> isl (on_patterns_change (Some (PStr ''B'')) None shown_AB) \<and>
    \<not> isl (show_all True max2 [(nodeC, 30), (nodeA, 40)] shown_AB) \<and>
    \<not> isl (show_child_prune True max2 nodeC 30 shown_AB)"
    by (simp add: scenario_defs more_defs insert_commute)
  have c: "(case render True max2 (Some [Node nodeC]) shown_AB of
      Inl e \<Rightarrow> True
    | Inr (res, s1) \<Rightarrow>
        fst ` set (cache s1) \<subseteq> set (keys s1) \<and>
        set (keys s1) \<subseteq> fst ` set (cache s1) \<union> set_option (pendingCacheKey s1) \<and>
        (\<forall>sub. agree (cacheSubtree s1 sub))) \<and>
   (case pruneCacheEntry shown_AB (CComp 1) of Inl e \<Rightarrow> True | Inr s2 \<Rightarrow> agree s2) \<and>
   (case pruneCache None shown_AB of Inl e \<Rightarrow> True | Inr s3 \<Rightarrow> agree s3) \<and>
   (case on_patterns_change (Some (PStr ''B'')) None shown_AB of
      Inl e \<Rightarrow> True | Inr s4 \<Rightarrow> agree s4) \<and>
   (case show_all True max2 [(nodeC, 30), (nodeA, 40)] shown_AB of
      Inl e \<Rightarrow> True | Inr s5 \<Rightarrow> agree s5) \<and>
   (case show_child_prune True max2 nodeC 30 shown_AB of
      Inl e \<Rightarrow> True
    | Inr s6 \<Rightarrow>
        set (keys s6) \<subseteq> fst ` set (cache s6) \<and>
        fst ` set (cache s6) \<subseteq> set (keys s6) \<union> set_option (pendingCacheKey s6) \<and>
        agree s6 = (set_option (pendingCacheKey s6) \<subseteq> set (keys s6)))"
    by (rule keys_cache_agree [OF agree_shown_AB])
  from agree_shown_AB n c show ?thesis by blast
qed

subsection \<open>A child that is not eligible\<close>

text \<open>
  C9. When the single child fails the include/exclude test, the render returns the
  child's node itself, unchanged (so no keep-alive flag is set on it); \<open>keys\<close> and
  \<open>cache\<close> are as before, nothing is unmounted, no key is pending, and the mounted
  or updated hook that follows changes nothing.
\<close>

theorem ineligible_child_passthrough:
  assumes "getInnerChild raw = Some vn" "ineligible props vn"
  shows "\<exists>s'. render dev props (Some [Node raw]) s = Inr (RRaw (Some (Node raw)), s') \<and>
     keys s' = keys s \<and> cache s' = cache s \<and> unmounted s' = unmounted s \<and>
     pendingCacheKey s' = None \<and> (\<forall>sub. cacheSubtree s' sub = s')"
  using assms by (auto simp: render_def Let_def cacheSubtree_def)

theorem ineligible_child_passthrough_witness:
  "getInnerChild nodeBar = Some nodeBar \<and> ineligible include_Foo nodeBar \<and>
   (\<exists>s'. render True include_Foo (Some [Node nodeBar]) ka_init =
            Inr (RRaw (Some (Node nodeBar)), s') \<and>
     keys s' = keys ka_init \<and> cache s' = cache ka_init \<and> unmounted s' = unmounted ka_init \<and>
     pendingCacheKey s' = None \<and> (\<forall>sub. cacheSubtree s' sub = s'))"
proof (intro conjI)
  show g: "getInnerChild nodeBar = Some nodeBar"
    by (simp add: getInnerChild_def nodeBar_def fresh_node_def)
  show i: "ineligible include_Foo nodeBar"
    by (simp add: ineligible_def include_Foo_def render_name_def nodeBar_def fresh_node_def
        comp_named_def)
  show "\<exists>s'. render True include_Foo (Some [Node nodeBar]) ka_init =
            Inr (RRaw (Some (Node nodeBar)), s') \<and>
     keys s' = keys ka_init \<and> cache s' = cache ka_init \<and> unmounted s' = unmounted ka_init \<and>
     pendingCacheKey s' = None \<and> (\<forall>sub. cacheSubtree s' sub = s')"
    by (rule ineligible_child_passthrough [OF g i])
qed

section \<open>Properties of the async component wrapper\<close>

subsection \<open>One request while the pending request is kept\<close>

lemma load_pending: "pendingRequest s = Some p \<Longrightarrow> load s = (p, s)"
  by (simp add: load_def)

lemma load_sets_pending: "pendingRequest (snd (load s)) = Some (fst (load s))"
  by (simp add: load_def split: option.splits)

lemma loads_pending: "pendingRequest s = Some p \<Longrightarrow> loads n s = (replicate n p, s)"
  by (induction n) (simp_all add: load_pending)

lemma onError_eq:
  "onError env opts err (s, i) =
     (handleError env err (errorComponent opts = None),
      s\<lparr>pendingRequest := None\<rparr>,
      i\<lparr>reported := reported i @ [(err, errorComponent opts = None)]\<rparr>)"
  by (simp add: onError_def)

lemma timeout_callback_fires:
  "timeout_callback env opts t (s, i) =
    (if \<not> loaded_ref i \<and> error_ref i = None
     then (s\<lparr>pendingRequest := None\<rparr>,
           if dev_build env \<and> errorComponent opts = None \<and> \<not> error_taken env
           then i\<lparr>reported := reported i @ [(TimeoutError t, errorComponent opts = None)],
                  uncaught := uncaught i @ [TimeoutError t]\<rparr>
           else i\<lparr>reported := reported i @ [(TimeoutError t, errorComponent opts = None)],
                  error_ref := Some (TimeoutError t)\<rparr>)
     else (s, i))"
  by (simp add: timeout_callback_def onError_def handleError_def)

lemma setup_catch_eq:
  "setup_catch env opts err (s, i) =
     (s\<lparr>pendingRequest := None\<rparr>,
      if dev_build env \<and> errorComponent opts = None \<and> \<not> error_taken env
      then i\<lparr>reported := reported i @ [(err, errorComponent opts = None)],
             uncaught := uncaught i @ [err]\<rparr>
      else i\<lparr>reported := reported i @ [(err, errorComponent opts = None)],
             error_ref := Some err\<rparr>)"
  by (simp add: setup_catch_def onError_def handleError_def)

lemma step_pending:
  "pendingRequest (fst (step env opts pk ev (s, i))) =
     (if (ev = TimeoutElapsed \<and> timeout opts \<noteq> None \<and> timeout_armed i \<and>
          \<not> loaded_ref i \<and> error_ref i = None)
       \<or> (is_rejected (Some ev) \<and> \<not> settled i)
      then None else pendingRequest s)"
  by (cases ev)
     (auto simp: step_def timeout_callback_fires setup_catch_eq delay_callback_def
        setup_then_def load_then_def split: option.splits)

lemma load_init:
  "load async_init = (0, async_init\<lparr>pendingRequest := Some 0, loader_calls := 1, fresh := 1\<rparr>)"
  by (simp add: load_def async_init_def)

text \<open>
  C3, as the claim states it, fails. An instance is mounted with a timeout, which calls
  \<open>load()\<close> and gets request 0. The timeout elapses while that request is in flight
  (it has not settled); the timer's \<open>onError\<close> clears \<open>pendingRequest\<close>. The next
  \<open>load()\<close> returns another request, 1, and has called the loader a second time,
  without any retry.
\<close>

theorem load_after_timeout_counterexample:
  "fst (load async_init) = 0 \<and>
   \<not> settled (snd (step production with_timeout False TimeoutElapsed (mounted with_timeout))) \<and>
   pendingRequest (fst (step production with_timeout False TimeoutElapsed (mounted with_timeout)))
     = None \<and>
   fst (load (fst (step production with_timeout False TimeoutElapsed (mounted with_timeout)))) = 1 \<and>
   loader_calls
     (snd (load (fst (step production with_timeout False TimeoutElapsed (mounted with_timeout)))))
     = 2 \<and>
   retries
     (snd (load (fst (step production with_timeout False TimeoutElapsed (mounted with_timeout)))))
     = 0"
  by (simp add: step_def timeout_callback_fires mounted_def load_init fresh_instance_def
      with_timeout_def production_def load_def async_init_def)

text \<open>
  C3, amended. While \<open>pendingRequest\<close> holds a request, \<open>load()\<close> returns that request
  and leaves everything as it is, the loader included. So any number of \<open>load()\<close> calls
  in a row return the request of the first one and leave the state as the first one left
  it; the loader is called once if no request was pending and not at all otherwise. A
  \<open>retry\<close> starts a new attempt: one more loader call and a fresh request. An event of
  a mounted instance clears \<open>pendingRequest\<close> exactly when it runs \<open>onError\<close>: the
  timeout timer firing while the instance is neither loaded nor in error, or the
  rejection of the request the instance waits for; after \<open>onError\<close> the next
  \<open>load()\<close> calls the loader again and returns a fresh request.
\<close>

theorem load_shared_while_pending:
  "(pendingRequest s = Some p \<longrightarrow> load s = (p, s)) \<and>
   fst (loads (Suc n) s) = replicate (Suc n) (fst (load s)) \<and>
   snd (loads (Suc n) s) = snd (load s) \<and>
   pendingRequest (snd (load s)) = Some (fst (load s)) \<and>
   loader_calls (snd (loads (Suc n) s)) =
     (if pendingRequest s = None then Suc (loader_calls s) else loader_calls s) \<and>
   loader_calls (snd (retry s)) = Suc (loader_calls s) \<and>
   retries (snd (retry s)) = Suc (retries s) \<and>
   fst (retry s) = fresh s \<and>
   pendingRequest (fst (step env opts pk ev (s, i))) =
     (if (ev = TimeoutElapsed \<and> timeout opts \<noteq> None \<and> timeout_armed i \<and>
          \<not> loaded_ref i \<and> error_ref i = None)
       \<or> (is_rejected (Some ev) \<and> \<not> settled i)
      then None else pendingRequest s) \<and>
   pendingRequest (fst (snd (onError env opts err (s, i)))) = None \<and>
   fst (load (fst (snd (onError env opts err (s, i))))) = fresh s \<and>
   loader_calls (snd (load (fst (snd (onError env opts err (s, i)))))) = Suc (loader_calls s)"
proof -
  have l: "loads n (snd (load s)) = (replicate n (fst (load s)), snd (load s))"
    by (rule loads_pending) (rule load_sets_pending)
  have c: "loader_calls (snd (load s)) =
     (if pendingRequest s = None then Suc (loader_calls s) else loader_calls s)"
    by (simp add: load_def split: option.splits)
  have r: "loader_calls (snd (retry s)) = Suc (loader_calls s) \<and>
      retries (snd (retry s)) = Suc (retries s) \<and> fst (retry s) = fresh s"
    by (simp add: retry_def load_def)
  have o: "pendingRequest (fst (snd (onError env opts err (s, i)))) = None \<and>
     fst (load (fst (snd (onError env opts err (s, i))))) = fresh s \<and>
     loader_calls (snd (load (fst (snd (onError env opts err (s, i)))))) = Suc (loader_calls s)"
    by (simp add: onError_eq load_def)
  have p: "pendingRequest s = Some p \<longrightarrow> load s = (p, s)"
    by (simp add: load_pending)
  show ?thesis
    using l c r o p load_sets_pending[of s] step_pending[of env opts pk ev s i]
    by (simp add: split_beta)
qed

theorem load_shared_while_pending_witness:
  "pendingRequest (snd (load async_init)) = Some 0 \<and>
   load (snd (load async_init)) = (0, snd (load async_init)) \<and>
   fst (loads 3 async_init) = [0, 0, 0] \<and>
   loader_calls (snd (loads 3 async_init)) = 1"
proof -
  have a: "pendingRequest (snd (load async_init)) = Some 0"
    by (simp add: load_init)
  from load_shared_while_pending [of "snd (load async_init)" 0 2 production with_timeout False
      DelayElapsed "fresh_instance with_timeout" "LoadError ''offline''"] a
  have b: "load (snd (load async_init)) = (0, snd (load async_init))"
    by blast
  have c: "fst (loads 3 async_init) = [0, 0, 0] \<and> loader_calls (snd (loads 3 async_init)) = 1"
    by (simp add: numeral_3_eq_3 load_init load_pending)
  from a b c show ?thesis by simp
qed

subsection \<open>The timeout and a late success\<close>

lemma load_catch_calls:
  "loader_calls (snd (load_catch opts err s)) =
     (case userOnError opts of
        None \<Rightarrow> loader_calls s
      | Some h \<Rightarrow> if h err (retries s + 1) = CallRetry then Suc (loader_calls s)
                  else loader_calls s)"
  by (simp add: load_catch_def retry_def load_def split: option.splits user_choice.splits)

lemma step_timer_inv: "timer_inv st \<Longrightarrow> timer_inv (step env opts pk ev st)"
  by (cases st; cases ev)
     (auto simp: timer_inv_def timeout_count_def step_def timeout_callback_fires delay_callback_def
        setup_then_def setup_catch_eq load_then_def split: option.splits)

lemma run_timer_inv: "timer_inv st \<Longrightarrow> timer_inv (run env opts pk evs st)"
  by (induction evs arbitrary: st) (simp_all add: step_timer_inv)

lemma fresh_timer_inv: "timer_inv (s, fresh_instance opts)"
  by (simp add: timer_inv_def timeout_count_def fresh_instance_def)

lemma step_timeout_settled: "settled (snd (step env opts pk TimeoutElapsed (s, i))) = settled i"
  by (auto simp: step_def timeout_callback_fires split: option.splits)

lemma run_append: "run env opts pk (xs @ ys) st = run env opts pk ys (run env opts pk xs st)"
  by (induction xs arbitrary: st) simp_all

lemma first_settle_snoc:
  "first_settle (evs @ [ev]) =
     (case first_settle evs of
        Some e \<Rightarrow> Some e
      | None \<Rightarrow> (case ev of Fulfilled c \<Rightarrow> Some ev | Rejected m \<Rightarrow> Some ev | _ \<Rightarrow> None))"
  by (induction evs rule: first_settle.induct) (simp_all split: event.splits)

lemma first_settle_settles:
  "first_settle evs = Some e \<Longrightarrow> e \<noteq> DelayElapsed \<and> e \<noteq> TimeoutElapsed"
  by (induction evs rule: first_settle.induct) auto

text \<open>The refs before the timeout timer has fired, told from the events so far.\<close>

lemma run_before_timer:
  assumes "TimeoutElapsed \<notin> set evs" "timeout opts = Some t"
  shows "timeout_armed (snd (run env opts pk evs (s1, fresh_instance opts))) \<and>
     timeout_count (run env opts pk evs (s1, fresh_instance opts)) = 0 \<and>
     settled (snd (run env opts pk evs (s1, fresh_instance opts))) = (first_settle evs \<noteq> None) \<and>
     loaded_ref (snd (run env opts pk evs (s1, fresh_instance opts))) =
       is_fulfilled (first_settle evs) \<and>
     error_ref (snd (run env opts pk evs (s1, fresh_instance opts))) =
       (case first_settle evs of
          Some (Rejected m) \<Rightarrow>
            if dev_build env \<and> errorComponent opts = None \<and> \<not> error_taken env then None
            else Some (LoadError m)
        | _ \<Rightarrow> None)"
  using assms(1)
proof (induction evs rule: rev_induct)
  case Nil
  show ?case using assms(2) by (simp add: fresh_instance_def timeout_count_def)
next
  case (snoc ev evs)
  obtain s i where st: "run env opts pk evs (s1, fresh_instance opts) = (s, i)"
    by (cases "run env opts pk evs (s1, fresh_instance opts)")
  from snoc have IH: "timeout_armed i" "timeout_count (s, i) = 0"
    "settled i = (first_settle evs \<noteq> None)" "loaded_ref i = is_fulfilled (first_settle evs)"
    "error_ref i = (case first_settle evs of
          Some (Rejected m) \<Rightarrow>
            if dev_build env \<and> errorComponent opts = None \<and> \<not> error_taken env then None
            else Some (LoadError m)
        | _ \<Rightarrow> None)"
    and ev: "ev \<noteq> TimeoutElapsed"
    by (auto simp: st)
  show ?case
  proof (cases "first_settle evs")
    case None
    with IH ev show ?thesis
      by (cases ev)
         (simp_all add: run_append st first_settle_snoc step_def delay_callback_def
            setup_then_def load_then_def setup_catch_eq timeout_count_def)
  next
    case (Some e)
    with IH ev show ?thesis
      by (cases ev)
         (simp_all add: run_append st first_settle_snoc step_def delay_callback_def
            timeout_count_def)
  qed
qed

lemma timer_step:
  assumes "TimeoutElapsed \<notin> set evs" "timeout opts = Some t"
    and st: "st = run env opts pk evs (s1, fresh_instance opts)"
  shows "step env opts pk TimeoutElapsed st =
     (if first_settle evs = None \<or>
         (is_rejected (first_settle evs) \<and>
          dev_build env \<and> errorComponent opts = None \<and> \<not> error_taken env)
      then ((fst st)\<lparr>pendingRequest := None\<rparr>,
            if dev_build env \<and> errorComponent opts = None \<and> \<not> error_taken env
            then (snd st)\<lparr>timeout_armed := False,
                   reported := reported (snd st) @ [(TimeoutError t, errorComponent opts = None)],
                   uncaught := uncaught (snd st) @ [TimeoutError t]\<rparr>
            else (snd st)\<lparr>timeout_armed := False,
                   reported := reported (snd st) @ [(TimeoutError t, errorComponent opts = None)],
                   error_ref := Some (TimeoutError t)\<rparr>)
      else (fst st, (snd st)\<lparr>timeout_armed := False\<rparr>))"
proof -
  obtain s i where si: "st = (s, i)" by (cases st)
  with st have r: "run env opts pk evs (s1, fresh_instance opts) = (s, i)" by simp
  from run_before_timer[OF assms(1,2), of env pk s1]
  have f: "timeout_armed i" "loaded_ref i = is_fulfilled (first_settle evs)"
    "error_ref i = (case first_settle evs of
          Some (Rejected m) \<Rightarrow>
            if dev_build env \<and> errorComponent opts = None \<and> \<not> error_taken env then None
            else Some (LoadError m)
        | _ \<Rightarrow> None)"
    by (simp_all add: r)
  show ?thesis
  proof (cases "first_settle evs")
    case None
    with f assms(2) show ?thesis
      by (simp add: si step_def timeout_callback_fires)
  next
    case (Some e)
    with f assms(2) first_settle_settles[of evs e] show ?thesis
      by (cases e) (simp_all add: si step_def timeout_callback_fires)
  qed
qed

lemma timer_count:
  assumes "TimeoutElapsed \<notin> set evs" "timeout opts = Some t"
  shows "timeout_count (run env opts pk (evs @ [TimeoutElapsed]) (s1, fresh_instance opts)) =
     (if first_settle evs = None \<or>
         (is_rejected (first_settle evs) \<and>
          dev_build env \<and> errorComponent opts = None \<and> \<not> error_taken env)
      then 1 else 0)"
proof -
  let ?st = "run env opts pk evs (s1, fresh_instance opts)"
  from run_before_timer[OF assms, of env pk s1] have z: "timeout_count ?st = 0" by simp
  then show ?thesis
    by (simp add: run_append timer_step[OF assms refl] timeout_count_def)
qed

lemma settled_stays:
  assumes "settled i" "loaded_ref i" "resolvedComp s = Some c"
  shows "async_render opts (run env opts pk evs (s, i)) = ShowInner c"
  using assms
proof (induction evs arbitrary: s i)
  case Nil
  then show ?case by (simp add: async_render_def)
next
  case (Cons ev evs)
  obtain s' i' where st: "step env opts pk ev (s, i) = (s', i')"
    by (cases "step env opts pk ev (s, i)")
  have "settled i' \<and> loaded_ref i' \<and> resolvedComp s' = Some c"
    using st Cons.prems
    by (cases ev)
       (auto simp: step_def delay_callback_def timeout_callback_fires
          split: option.splits if_splits)
  with Cons.IH[of i' s'] show ?case by (simp add: st)
qed

lemma late_success:
  assumes "\<not> settled i" "first_settle evs = Some (Fulfilled (Some c))"
  shows "async_render opts (run env opts pk evs (s, i)) = ShowInner c"
  using assms
proof (induction evs arbitrary: s i)
  case Nil
  then show ?case by simp
next
  case (Cons ev evs)
  obtain s' i' where st: "step env opts pk ev (s, i) = (s', i')"
    by (cases "step env opts pk ev (s, i)")
  show ?case
  proof (cases ev)
    case DelayElapsed
    then have "\<not> settled i'" using st Cons.prems(1)
      by (auto simp: step_def delay_callback_def split: if_splits)
    with Cons.IH[of i' s'] Cons.prems(2) DelayElapsed show ?thesis using st by simp
  next
    case TimeoutElapsed
    then have "\<not> settled i'" using st Cons.prems(1) step_timeout_settled[of env opts pk s i]
      by simp
    with Cons.IH[of i' s'] Cons.prems(2) TimeoutElapsed show ?thesis using st by simp
  next
    case (Fulfilled c')
    with Cons.prems(2) have c': "c' = Some c" by simp
    have "settled i' \<and> loaded_ref i' \<and> resolvedComp s' = Some c"
      using st Cons.prems(1) Fulfilled c'
      by (auto simp: step_def setup_then_def load_then_def)
    then show ?thesis using settled_stays[of i' s' c opts env pk evs] st by simp
  next
    case (Rejected m)
    with Cons.prems(2) show ?thesis by simp
  qed
qed

text \<open>
  C5, as the claim states it, fails. In a development build, with no error component
  and nothing that takes the error, \<open>handleError\<close> throws the error of the failed load
  on, and the assignment to \<open>error\<close> is not reached. So when the timeout elapses after
  the load has errored, \<open>error\<close> is still empty and a timeout error is made and
  reported all the same.
\<close>

theorem timeout_after_error_counterexample:
  "first_settle [Rejected ''offline''] = Some (Rejected ''offline'') \<and>
   error_ref (snd (run development bare_timeout False [Rejected ''offline'']
     (mounted bare_timeout))) = None \<and>
   reported (snd (run development bare_timeout False [Rejected ''offline'', TimeoutElapsed]
     (mounted bare_timeout))) =
     [(LoadError ''offline'', True), (TimeoutError 3000, True)] \<and>
   timeout_count (run development bare_timeout False [Rejected ''offline'', TimeoutElapsed]
     (mounted bare_timeout)) = 1"
  by (simp add: step_def setup_catch_eq timeout_callback_fires mounted_def load_init
      fresh_instance_def bare_timeout_def development_def timeout_count_def)

text \<open>
  C5, amended. An instance is set up with a timeout and the timer elapses after the
  events \<open>evs\<close>. The timer makes a timeout error and routes it through \<open>onError\<close>
  exactly when the load has not settled, or has errored with \<open>handleError\<close> throwing
  that error on (development build, no error component, error taken by nobody); it then
  clears the pending request, reports the error, and stores it in \<open>error\<close> unless
  \<open>handleError\<close> throws again. Otherwise the timer changes nothing. Whatever the events
  after \<open>setup\<close>, at most one timeout error is ever reported. The timer leaves the
  subscription to the load as it is, and once the load is fulfilled with a component,
  before or after the timer, the render function shows that component, although
  \<open>error\<close> may hold the timeout error.
\<close>

theorem timeout_error_once_late_success:
  "(timeout opts = Some t \<and> async_setup opts s0 = (Tracking i0, s1) \<and>
    TimeoutElapsed \<notin> set evs \<longrightarrow>
      step env opts pk TimeoutElapsed (run env opts pk evs (s1, i0)) =
       (if first_settle evs = None \<or>
           (is_rejected (first_settle evs) \<and>
            dev_build env \<and> errorComponent opts = None \<and> \<not> error_taken env)
        then ((fst (run env opts pk evs (s1, i0)))\<lparr>pendingRequest := None\<rparr>,
              if dev_build env \<and> errorComponent opts = None \<and> \<not> error_taken env
              then (snd (run env opts pk evs (s1, i0)))\<lparr>timeout_armed := False,
                     reported := reported (snd (run env opts pk evs (s1, i0))) @
                       [(TimeoutError t, errorComponent opts = None)],
                     uncaught := uncaught (snd (run env opts pk evs (s1, i0))) @ [TimeoutError t]\<rparr>
              else (snd (run env opts pk evs (s1, i0)))\<lparr>timeout_armed := False,
                     reported := reported (snd (run env opts pk evs (s1, i0))) @
                       [(TimeoutError t, errorComponent opts = None)],
                     error_ref := Some (TimeoutError t)\<rparr>)
        else (fst (run env opts pk evs (s1, i0)),
              (snd (run env opts pk evs (s1, i0)))\<lparr>timeout_armed := False\<rparr>)) \<and>
      timeout_count (run env opts pk (evs @ [TimeoutElapsed]) (s1, i0)) =
       (if first_settle evs = None \<or>
           (is_rejected (first_settle evs) \<and>
            dev_build env \<and> errorComponent opts = None \<and> \<not> error_taken env)
        then 1 else 0)) \<and>
   (async_setup opts s0 = (Tracking i0, s1) \<longrightarrow>
      timeout_count (run env opts pk evs1 (s1, i0)) \<le> 1) \<and>
   settled (snd (step env opts pk TimeoutElapsed (s, i))) = settled i \<and>
   (async_setup opts s0 = (Tracking i0, s1) \<and> first_settle evs2 = Some (Fulfilled (Some c)) \<longrightarrow>
      async_render opts (run env opts pk evs2 (s1, i0)) = ShowInner c) \<and>
   (async_setup opts s0 = (Tracking i0, s1) \<and> timeout opts = Some t \<longrightarrow>
      error_ref (snd (run env opts pk [TimeoutElapsed, Fulfilled (Some c)] (s1, i0))) =
        (if dev_build env \<and> errorComponent opts = None \<and> \<not> error_taken env then None
         else Some (TimeoutError t)))"
proof (intro conjI impI)
  assume a: "timeout opts = Some t \<and> async_setup opts s0 = (Tracking i0, s1) \<and>
    TimeoutElapsed \<notin> set evs"
  then have i0: "i0 = fresh_instance opts"
    by (auto simp: async_setup_def split: option.splits)
  from a have t: "timeout opts = Some t" and n: "TimeoutElapsed \<notin> set evs" by simp_all
  show "step env opts pk TimeoutElapsed (run env opts pk evs (s1, i0)) =
       (if first_settle evs = None \<or>
           (is_rejected (first_settle evs) \<and>
            dev_build env \<and> errorComponent opts = None \<and> \<not> error_taken env)
        then ((fst (run env opts pk evs (s1, i0)))\<lparr>pendingRequest := None\<rparr>,
              if dev_build env \<and> errorComponent opts = None \<and> \<not> error_taken env
              then (snd (run env opts pk evs (s1, i0)))\<lparr>timeout_armed := False,
                     reported := reported (snd (run env opts pk evs (s1, i0))) @
                       [(TimeoutError t, errorComponent opts = None)],
                     uncaught := uncaught (snd (run env opts pk evs (s1, i0))) @ [TimeoutError t]\<rparr>
              else (snd (run env opts pk evs (s1, i0)))\<lparr>timeout_armed := False,
                     reported := reported (snd (run env opts pk evs (s1, i0))) @
                       [(TimeoutError t, errorComponent opts = None)],
                     error_ref := Some (TimeoutError t)\<rparr>)
        else (fst (run env opts pk evs (s1, i0)),
              (snd (run env opts pk evs (s1, i0)))\<lparr>timeout_armed := False\<rparr>))"
    unfolding i0 by (rule timer_step[OF n t refl])
  show "timeout_count (run env opts pk (evs @ [TimeoutElapsed]) (s1, i0)) =
       (if first_settle evs = None \<or>
           (is_rejected (first_settle evs) \<and>
            dev_build env \<and> errorComponent opts = None \<and> \<not> error_taken env)
        then 1 else 0)"
    unfolding i0 by (rule timer_count[OF n t])
next
  assume a: "async_setup opts s0 = (Tracking i0, s1)"
  then have i0: "i0 = fresh_instance opts"
    by (auto simp: async_setup_def split: option.splits)
  show "timeout_count (run env opts pk evs1 (s1, i0)) \<le> 1"
    using run_timer_inv[OF fresh_timer_inv, of env opts pk evs1 s1]
    by (simp add: i0 timer_inv_def)
next
  show "settled (snd (step env opts pk TimeoutElapsed (s, i))) = settled i"
    by (rule step_timeout_settled)
next
  assume a: "async_setup opts s0 = (Tracking i0, s1) \<and>
    first_settle evs2 = Some (Fulfilled (Some c))"
  then have i0: "i0 = fresh_instance opts"
    by (auto simp: async_setup_def split: option.splits)
  have "\<not> settled (fresh_instance opts)" by (simp add: fresh_instance_def)
  from late_success[OF this, of evs2 c opts env pk s1] a
  show "async_render opts (run env opts pk evs2 (s1, i0)) = ShowInner c"
    by (simp add: i0)
next
  assume a: "async_setup opts s0 = (Tracking i0, s1) \<and> timeout opts = Some t"
  then have i0: "i0 = fresh_instance opts"
    by (auto simp: async_setup_def split: option.splits)
  from a show "error_ref (snd (run env opts pk [TimeoutElapsed, Fulfilled (Some c)] (s1, i0))) =
        (if dev_build env \<and> errorComponent opts = None \<and> \<not> error_taken env then None
         else Some (TimeoutError t))"
    by (simp add: i0 step_def timeout_callback_fires fresh_instance_def setup_then_def)
qed

lemma setup_with_timeout:
  "async_setup with_timeout async_init = (Tracking (fresh_instance with_timeout), snd (load async_init))"
  by (simp add: async_setup_def async_init_def)

theorem timeout_error_once_late_success_witness:
  "(timeout with_timeout = Some 3000 \<and>
    async_setup with_timeout async_init =
      (Tracking (fresh_instance with_timeout), snd (load async_init)) \<and>
    TimeoutElapsed \<notin> set [DelayElapsed, Rejected ''offline''] \<and>
    first_settle [TimeoutElapsed, DelayElapsed, Fulfilled (Some 7)] = Some (Fulfilled (Some 7))) \<and>
   timeout_count (run production with_timeout False
     ([DelayElapsed, Rejected ''offline''] @ [TimeoutElapsed])
     (snd (load async_init), fresh_instance with_timeout)) = 0 \<and>
   timeout_count (run production with_timeout False
     [TimeoutElapsed, Rejected ''offline'', TimeoutElapsed]
     (snd (load async_init), fresh_instance with_timeout)) \<le> 1 \<and>
   async_render with_timeout (run production with_timeout False
     [TimeoutElapsed, DelayElapsed, Fulfilled (Some 7)]
     (snd (load async_init), fresh_instance with_timeout)) = ShowInner 7 \<and>
   error_ref (snd (run production with_timeout False [TimeoutElapsed, Fulfilled (Some 7)]
     (snd (load async_init), fresh_instance with_timeout))) = Some (TimeoutError 3000)"
proof -
  have h: "timeout with_timeout = Some 3000 \<and>
    async_setup with_timeout async_init =
      (Tracking (fresh_instance with_timeout), snd (load async_init)) \<and>
    TimeoutElapsed \<notin> set [DelayElapsed, Rejected ''offline''] \<and>
    first_settle [TimeoutElapsed, DelayElapsed, Fulfilled (Some 7)] = Some (Fulfilled (Some 7))"
    using setup_with_timeout by (simp add: with_timeout_def)
  have e: "dev_build production = False" "errorComponent with_timeout = Some 2"
    "first_settle [DelayElapsed, Rejected ''offline''] = Some (Rejected ''offline'')"
    by (simp_all add: production_def with_timeout_def)
  from timeout_error_once_late_success [of with_timeout 3000 async_init
      "fresh_instance with_timeout" "snd (load async_init)"
      "[DelayElapsed, Rejected ''offline'']" production False
      "[TimeoutElapsed, Rejected ''offline'', TimeoutElapsed]"
      "snd (load async_init)" "fresh_instance with_timeout"
      "[TimeoutElapsed, DelayElapsed, Fulfilled (Some 7)]" 7] h e
  show ?thesis by (simp del: run.simps)
qed

end
